theory Spec2Isabelle
  imports Main "HOL-Library.Char_ord" "HOL-Library.List_Lexorder"
begin

section \<open>Characters and strings as the Python source sees them\<close>

text \<open>
  The extractor of \<^verbatim>\<open>process_pdf_to_piping_lines.py\<close> works on Python \<^verbatim>\<open>str\<close> values.
  A string is modelled as a \<^typ>\<open>string\<close>, one \<^typ>\<open>char\<close> per code point, and the
  character classes below are those of ASCII: the model describes the code on ASCII text.
\<close>

definition newline :: char where
  "newline = CHR 0x0A"

definition dash :: char where
  "dash = CHR ''-''"

definition inch :: char where
  "inch = CHR 0x22"

definition is_digit :: "char \<Rightarrow> bool" where
  "is_digit c \<longleftrightarrow> CHR ''0'' \<le> c \<and> c \<le> CHR ''9''"

definition is_upper :: "char \<Rightarrow> bool" where
  "is_upper c \<longleftrightarrow> CHR ''A'' \<le> c \<and> c \<le> CHR ''Z''"

definition is_lower :: "char \<Rightarrow> bool" where
  "is_lower c \<longleftrightarrow> CHR ''a'' \<le> c \<and> c \<le> CHR ''z''"

definition is_alpha :: "char \<Rightarrow> bool" where
  "is_alpha c \<longleftrightarrow> is_upper c \<or> is_lower c"

definition is_alnum :: "char \<Rightarrow> bool" where
  "is_alnum c \<longleftrightarrow> is_alpha c \<or> is_digit c"

text \<open>The class \<^verbatim>\<open>[A-Z0-9]\<close> of the patterns, without the IGNORECASE flag.\<close>

definition is_upper_alnum :: "char \<Rightarrow> bool" where
  "is_upper_alnum c \<longleftrightarrow> is_upper c \<or> is_digit c"

text \<open>A word character of \<^verbatim>\<open>\b\<close>: a letter, a digit or the underscore.\<close>

definition is_word :: "char \<Rightarrow> bool" where
  "is_word c \<longleftrightarrow> is_alnum c \<or> c = CHR ''_''"

text \<open>
  White space of \<^verbatim>\<open>str.strip()\<close> and of \<^verbatim>\<open>\s\<close>: the blank, the controls
  \<^verbatim>\<open>\t \n \v \f \r\<close> and the four separators \<^verbatim>\<open>\x1c\<close> to \<^verbatim>\<open>\x1f\<close>.
\<close>

definition is_space :: "char \<Rightarrow> bool" where
  "is_space c \<longleftrightarrow> c = CHR '' '' \<or> (CHR 0x09 \<le> c \<and> c \<le> CHR 0x0D) \<or> (CHR 0x1C \<le> c \<and> c \<le> CHR 0x1F)"

text \<open>\<^verbatim>\<open>str.upper()\<close> and \<^verbatim>\<open>str.lower()\<close> on ASCII.\<close>

definition char_upper :: "char \<Rightarrow> char" where
  "char_upper c = (if is_lower c then char_of (of_char c - (32::nat)) else c)"

definition char_lower :: "char \<Rightarrow> char" where
  "char_lower c = (if is_upper c then char_of (of_char c + (32::nat)) else c)"

definition upper :: "string \<Rightarrow> string" where
  "upper s = map char_upper s"

text \<open>\<^verbatim>\<open>str.strip()\<close>: white space removed at both ends.\<close>

definition strip :: "string \<Rightarrow> string" where
  "strip s = rev (dropWhile is_space (rev (dropWhile is_space s)))"

text \<open>
  \<^verbatim>\<open>s.split(sep)\<close> for a one-character separator: the pieces between the separators,
  empty pieces kept, so the result is never the empty list.
\<close>

fun py_split :: "char \<Rightarrow> string \<Rightarrow> string list" where
  "py_split sep [] = [[]]"
| "py_split sep (c # cs) =
     (if c = sep then [] # py_split sep cs
      else (case py_split sep cs of
              [] \<Rightarrow> [[c]]
            | w # ws \<Rightarrow> (c # w) # ws))"

text \<open>\<^verbatim>\<open>sep.join(pieces)\<close>.\<close>

fun py_join :: "string \<Rightarrow> string list \<Rightarrow> string" where
  "py_join sep [] = []"
| "py_join sep [w] = w"
| "py_join sep (w # v # ws) = w @ sep @ py_join sep (v # ws)"

text \<open>\<^verbatim>\<open>re.search(r"[C]", s)\<close> for a character class: some character of the class occurs.\<close>

definition re_search_class :: "(char \<Rightarrow> bool) \<Rightarrow> string \<Rightarrow> bool" where
  "re_search_class P s = list_ex P s"

text \<open>
  \<^verbatim>\<open>re.match(r"^[C]+$", s)\<close> for a class without the newline: one or more characters of
  the class up to the end of the string. Python's \<^verbatim>\<open>$\<close> also matches just before a
  newline that is the last character of the string, so one final newline is allowed.
\<close>

definition re_match_plus_eol :: "(char \<Rightarrow> bool) \<Rightarrow> string \<Rightarrow> bool" where
  "re_match_plus_eol P s =
     (let body = (if s \<noteq> [] \<and> last s = newline then butlast s else s)
      in body \<noteq> [] \<and> list_all P body)"

section \<open>Normalisation and validation\<close>

text \<open>
  \<^verbatim>\<open>normalize_piping_line\<close>: the line is split at the dashes; when the first piece
  matches \<^verbatim>\<open>^\d+$\<close> an inch mark is appended to it and the pieces are joined again.
  \<^verbatim>\<open>split\<close> never returns an empty list, the test on the length is kept as in the source.
\<close>

definition normalize_piping_line :: "string \<Rightarrow> string" where
  "normalize_piping_line line =
     (let components = py_split dash line in
      if length components \<ge> 1 then
        (let first_component = hd components in
         if re_match_plus_eol is_digit first_component
         then py_join [dash] ((first_component @ [inch]) # tl components)
         else line)
      else line)"

text \<open>\<^verbatim>\<open>validate_piping_line\<close>, check by check in the order of the source.\<close>

definition validate_piping_line :: "string \<Rightarrow> bool" where
  "validate_piping_line line =
     (let components = py_split dash line in
      if length components \<noteq> 4 then False
      else if \<not> re_search_class is_upper line then False
      else if \<not> re_search_class is_digit line then False
      else if length line > 20 \<or> length line < 7 then False
      else if \<not> re_search_class is_digit (components ! 0) then False
      else if \<not> re_match_plus_eol is_upper_alnum (components ! 3) then False
      else True)"


section \<open>Regular expressions\<close>

text \<open>
  The patterns of the source are sequences of character classes, bounded greedy
  repetitions of a class, word boundaries and one capture group. A pattern is a list of
  items; the matcher below is the backtracking matcher of Python's \<^verbatim>\<open>re\<close> restricted
  to such patterns: a greedy repetition first takes as many characters as it can and
  gives them back one at a time while the rest of the pattern fails.
\<close>

datatype item =
    Bnd                                   \<comment> \<open>\<^verbatim>\<open>\b\<close>\<close>
  | Mark                                  \<comment> \<open>an end of the capture group, \<^verbatim>\<open>(\<close> or \<^verbatim>\<open>)\<close>\<close>
  | Cls "char \<Rightarrow> bool"                    \<comment> \<open>one character of a class; a literal is a class of one\<close>
  | Rep "char \<Rightarrow> bool" nat "nat option"    \<comment> \<open>\<^verbatim>\<open>[C]{lo,hi}\<close>, greedy; no upper bound is \<open>None\<close>\<close>

definition lit :: "char \<Rightarrow> item" where
  "lit c = Cls (\<lambda>x. x = c)"

text \<open>The flag \<^verbatim>\<open>re.IGNORECASE\<close>: a character matches a class when it or its other case does.\<close>

definition ci :: "(char \<Rightarrow> bool) \<Rightarrow> char \<Rightarrow> bool" where
  "ci P c \<longleftrightarrow> P c \<or> P (char_upper c) \<or> P (char_lower c)"

fun ignorecase_item :: "item \<Rightarrow> item" where
  "ignorecase_item Bnd = Bnd"
| "ignorecase_item Mark = Mark"
| "ignorecase_item (Cls P) = Cls (ci P)"
| "ignorecase_item (Rep P lo hi) = Rep (ci P) lo hi"

definition ignorecase :: "item list \<Rightarrow> item list" where
  "ignorecase its = map ignorecase_item its"

text \<open>
  \<^verbatim>\<open>\b\<close> holds between a word character and a character that is not one; the start
  and the end of the string count as not a word character. \<open>prev\<close> is the character
  before the current position, if any.
\<close>

definition at_boundary :: "char option \<Rightarrow> string \<Rightarrow> bool" where
  "at_boundary prev s \<longleftrightarrow>
     (case prev of None \<Rightarrow> False | Some p \<Rightarrow> is_word p)
       \<noteq> (case s of [] \<Rightarrow> False | c # _ \<Rightarrow> is_word c)"

fun first_some :: "'a option list \<Rightarrow> 'a option" where
  "first_some [] = None"
| "first_some (None # xs) = first_some xs"
| "first_some (Some x # xs) = Some x"

definition shift :: "nat \<Rightarrow> nat \<times> nat list \<Rightarrow> nat \<times> nat list" where
  "shift k r = (k + fst r, map (\<lambda>m. k + m) (snd r))"

definition prev_after :: "char option \<Rightarrow> string \<Rightarrow> nat \<Rightarrow> char option" where
  "prev_after prev s n = (if n = 0 then prev else Some (s ! (n - 1)))"

text \<open>
  \<open>match_here its prev s\<close> matches the pattern at the start of \<open>s\<close>. The result is the
  number of characters matched and the offsets of the marks, or \<open>None\<close> when every
  alternative fails. In \<open>prev_after\<close> the index \<open>n - 1\<close> is below \<open>length s\<close>, because
  \<open>n\<close> is at most the length of a prefix of \<open>s\<close>.
\<close>

fun match_here :: "item list \<Rightarrow> char option \<Rightarrow> string \<Rightarrow> (nat \<times> nat list) option" where
  "match_here [] prev s = Some (0, [])"
| "match_here (Bnd # its) prev s =
     (if at_boundary prev s then match_here its prev s else None)"
| "match_here (Mark # its) prev s =
     map_option (\<lambda>r. (fst r, 0 # snd r)) (match_here its prev s)"
| "match_here (Cls P # its) prev s =
     (case s of
        [] \<Rightarrow> None
      | c # cs \<Rightarrow> if P c then map_option (shift 1) (match_here its (Some c) cs) else None)"
| "match_here (Rep P lo hi # its) prev s =
     (let k = length (takeWhile P (case hi of None \<Rightarrow> s | Some h \<Rightarrow> take h s))
      in first_some
           (map (\<lambda>n. map_option (shift n) (match_here its (prev_after prev s n) (drop n s)))
                (rev [lo..<Suc k])))"

text \<open>
  \<^verbatim>\<open>re.findall(pattern, s)\<close> for a pattern without a group: the matches from left to
  right, each search starting where the last match ended. The patterns of the extractor
  match seven characters or more; an empty match is recorded and the scan moves on by
  one character.
\<close>

fun findall_from :: "item list \<Rightarrow> char option \<Rightarrow> string \<Rightarrow> string list" where
  "findall_from its prev [] =
     (case match_here its prev [] of None \<Rightarrow> [] | Some r \<Rightarrow> [[]])"
| "findall_from its prev (c # cs) =
     (case match_here its prev (c # cs) of
        None \<Rightarrow> findall_from its (Some c) cs
      | Some r \<Rightarrow>
          if fst r = 0 then [] # findall_from its (Some c) cs
          else take (fst r) (c # cs)
                 # findall_from its (Some ((c # cs) ! (fst r - 1))) (drop (fst r) (c # cs)))"

definition re_findall :: "item list \<Rightarrow> string \<Rightarrow> string list" where
  "re_findall its s = findall_from its None s"

text \<open>
  \<^verbatim>\<open>re.search(pattern, s)\<close>: the first position at which the pattern matches, with the
  length of the match and the offsets of the marks from that position.
\<close>

fun search_from :: "item list \<Rightarrow> char option \<Rightarrow> string \<Rightarrow> (nat \<times> nat \<times> nat list) option" where
  "search_from its prev [] = map_option (\<lambda>r. (0, r)) (match_here its prev [])"
| "search_from its prev (c # cs) =
     (case match_here its prev (c # cs) of
        Some r \<Rightarrow> Some (0, r)
      | None \<Rightarrow> map_option (\<lambda>(i, r). (Suc i, r)) (search_from its (Some c) cs))"

definition re_search :: "item list \<Rightarrow> string \<Rightarrow> (nat \<times> nat \<times> nat list) option" where
  "re_search its s = search_from its None s"

text \<open>\<^verbatim>\<open>match.group(1)\<close>: the text between the two marks.\<close>

definition group1 :: "string \<Rightarrow> nat \<times> nat \<times> nat list \<Rightarrow> string" where
  "group1 s m =
     (case m of (i, n, ms) \<Rightarrow>
        (case ms of
           [a, b] \<Rightarrow> take (b - a) (drop (i + a) s)
         | _ \<Rightarrow> []))"

section \<open>Layout spans and coordinates\<close>

record bbox =
  bbox_x :: int
  bbox_y :: int
  bbox_width :: int
  bbox_height :: int

text \<open>One entry of \<^verbatim>\<open>layout_info\<close>: the keys \<^verbatim>\<open>start\<close>, \<^verbatim>\<open>end\<close>, \<^verbatim>\<open>bbox\<close>, \<^verbatim>\<open>text\<close>.\<close>

record span =
  span_start :: int
  span_end :: int
  span_bbox :: "bbox option"
  span_text :: string

text \<open>\<^verbatim>\<open>hay.find(needle)\<close>: the first index at which \<open>needle\<close> occurs, \<open>None\<close> for \<open>-1\<close>.\<close>

fun py_find :: "string \<Rightarrow> string \<Rightarrow> nat option" where
  "py_find needle [] = (if needle = [] then Some 0 else None)"
| "py_find needle (c # cs) =
     (if take (length needle) (c # cs) = needle then Some 0
      else map_option Suc (py_find needle cs))"

text \<open>The three-way test of the loop in \<^verbatim>\<open>find_coordinates_for_text\<close>.\<close>

definition overlaps :: "span \<Rightarrow> int \<Rightarrow> int \<Rightarrow> bool" where
  "overlaps l start_pos end_pos \<longleftrightarrow>
     (span_start l \<le> start_pos \<and> start_pos < span_end l)
     \<or> (span_start l < end_pos \<and> end_pos \<le> span_end l)
     \<or> (start_pos \<le> span_start l \<and> span_start l < end_pos)"

text \<open>
  The loop over \<^verbatim>\<open>layout_info\<close>. A bounding box is a dictionary of four keys, so
  \<^verbatim>\<open>if layout["bbox"]\<close> holds exactly when the box is not \<^verbatim>\<open>None\<close>.
\<close>

fun scan_layout :: "int \<Rightarrow> int \<Rightarrow> span list \<Rightarrow> bbox option" where
  "scan_layout start_pos end_pos [] = None"
| "scan_layout start_pos end_pos (l # ls) =
     (if overlaps l start_pos end_pos then
        (case span_bbox l of
           Some b \<Rightarrow> Some b
         | None \<Rightarrow> scan_layout start_pos end_pos ls)
      else scan_layout start_pos end_pos ls)"

definition find_coordinates_for_text :: "string \<Rightarrow> string \<Rightarrow> span list \<Rightarrow> bbox option" where
  "find_coordinates_for_text target_text txt layout_info =
     (let text_upper = upper txt;
          target_upper = upper target_text
      in case py_find target_upper text_upper of
           None \<Rightarrow> None
         | Some start_pos \<Rightarrow>
             (let end_pos = start_pos + length target_text
              in scan_layout (int start_pos) (int end_pos) layout_info))"

section \<open>Extraction of the piping line numbers\<close>

text \<open>
  The three patterns, item by item:
  \<^verbatim>\<open>\b\d{1,2}"-[A-Z]{1,3}-[A-Z0-9]{1,3}-[A-Z0-9]{1,4}\b\<close>,
  \<^verbatim>\<open>\b\d{1,2}-[A-Z]{1,3}-[A-Z0-9]{1,3}-[A-Z0-9]{1,4}\b\<close> and
  \<^verbatim>\<open>\b[A-Z0-9"]{1,4}-[A-Z]{1,3}-[A-Z0-9]{1,3}-[A-Z0-9]{1,4}\b\<close>.
\<close>

definition tail_items :: "item list" where
  "tail_items =
     [lit dash, Rep is_upper 1 (Some 3),
      lit dash, Rep is_upper_alnum 1 (Some 3),
      lit dash, Rep is_upper_alnum 1 (Some 4), Bnd]"

definition pattern1 :: "item list" where
  "pattern1 = [Bnd, Rep is_digit 1 (Some 2), lit inch] @ tail_items"

definition pattern2 :: "item list" where
  "pattern2 = [Bnd, Rep is_digit 1 (Some 2)] @ tail_items"

definition pattern3 :: "item list" where
  "pattern3 = [Bnd, Rep (\<lambda>c. is_upper_alnum c \<or> c = inch) 1 (Some 4)] @ tail_items"

definition patterns :: "item list list" where
  "patterns = [pattern1, pattern2, pattern3]"

text \<open>
  The dictionary \<^verbatim>\<open>piping_lines\<close> is a list of keys with their values in the order of
  insertion; a key is stored once. The value is the triple of the line number, the
  context and the coordinates.
\<close>

type_synonym line_data = "nat \<times> string \<times> bbox option"

type_synonym piping_dict = "(string \<times> line_data) list"

text \<open>The body of the innermost loop, for one match of one pattern in one line.\<close>

definition record_match ::
    "string \<Rightarrow> span list \<Rightarrow> nat \<Rightarrow> string \<Rightarrow> string \<Rightarrow> piping_dict \<Rightarrow> piping_dict" where
  "record_match txt layout_info line_num line mtch piping_lines =
     (let cleaned_match = upper (strip mtch) in
      if dash \<in> set cleaned_match \<and> re_search_class is_upper cleaned_match then
        (let normalized_match = normalize_piping_line cleaned_match;
             context = take 100 (strip line);
             coords = find_coordinates_for_text mtch txt layout_info
         in if map_of piping_lines normalized_match = None
            then piping_lines @ [(normalized_match, (line_num, context, coords))]
            else piping_lines)
      else piping_lines)"

text \<open>The three nested loops: lines numbered from 1, then patterns, then matches.\<close>

definition extract_piping_line_numbers :: "string \<Rightarrow> span list \<Rightarrow> piping_dict" where
  "extract_piping_line_numbers txt layout_info =
     fold (\<lambda>(line_num, line).
             fold (\<lambda>pattern.
                     fold (record_match txt layout_info line_num line)
                          (re_findall (ignorecase pattern) line))
                  patterns)
          (enumerate 1 (py_split newline txt))
          []"

section \<open>The drawing identifier\<close>

text \<open>
  \<^verbatim>\<open>DWG\.\s*NO\.?\s*([A-Z0-9\-]+PID[A-Z0-9\-]*)\<close> and the second pattern, which
  differs in having no period after \<^verbatim>\<open>DWG\<close>.
\<close>

definition is_token_char :: "char \<Rightarrow> bool" where
  "is_token_char c \<longleftrightarrow> is_upper_alnum c \<or> c = dash"

definition pid_label_tail :: "item list" where
  "pid_label_tail =
     [Rep is_space 0 None, lit CHR ''N'', lit CHR ''O'', Rep (\<lambda>c. c = CHR ''.'') 0 (Some 1),
      Rep is_space 0 None]"

definition pid_group :: "item list" where
  "pid_group =
     [Mark, Rep is_token_char 1 None, lit CHR ''P'', lit CHR ''I'', lit CHR ''D'',
      Rep is_token_char 0 None, Mark]"

definition pid_pattern :: "item list" where
  "pid_pattern =
     ([lit CHR ''D'', lit CHR ''W'', lit CHR ''G'', lit CHR ''.''] @ pid_label_tail) @ pid_group"

definition pid_pattern2 :: "item list" where
  "pid_pattern2 = ([lit CHR ''D'', lit CHR ''W'', lit CHR ''G''] @ pid_label_tail) @ pid_group"

definition extract_pid_identifier :: "string \<Rightarrow> string option" where
  "extract_pid_identifier txt =
     (case re_search (ignorecase pid_pattern) txt of
        Some m \<Rightarrow> Some (strip (group1 txt m))
      | None \<Rightarrow>
          (case re_search (ignorecase pid_pattern2) txt of
             Some m2 \<Rightarrow> Some (strip (group1 txt m2))
           | None \<Rightarrow> None))"

section \<open>Assembling the result\<close>

record extraction_record =
  piping_line_number :: string
  text_line_number :: nat
  context_text :: string
  coordinates :: "bbox option"

text \<open>
  The dictionary written by \<^verbatim>\<open>save_results_as_json\<close>, without the time stamp and the
  name of the script.
\<close>

record extraction_result =
  source_file :: string
  total_found :: nat
  pid_identifier :: "string option"
  piping_lines :: "extraction_record list"

text \<open>The filter of step 5: the entries whose key passes \<^verbatim>\<open>validate_piping_line\<close>.\<close>

definition validated_lines_data :: "piping_dict \<Rightarrow> piping_dict" where
  "validated_lines_data piping_lines_data =
     filter (\<lambda>(line, data). validate_piping_line line) piping_lines_data"

text \<open>
  One entry per key of \<^verbatim>\<open>sorted(piping_lines_data.keys())\<close>. The keys are those of the
  dictionary, so the lookup finds each of them; \<^verbatim>\<open>coords if coords else None\<close> is
  \<^verbatim>\<open>coords\<close>.
\<close>

definition make_entry :: "piping_dict \<Rightarrow> string \<Rightarrow> extraction_record list" where
  "make_entry piping_lines_data piping_line =
     (case map_of piping_lines_data piping_line of
        None \<Rightarrow> []
      | Some (line_num, ctx, coords) \<Rightarrow>
          [\<lparr>piping_line_number = piping_line, text_line_number = line_num,
            context_text = ctx, coordinates = coords\<rparr>])"

definition save_results_as_json ::
    "piping_dict \<Rightarrow> string \<Rightarrow> string option \<Rightarrow> extraction_result" where
  "save_results_as_json piping_lines_data pdf_file pid =
     \<lparr>source_file = pdf_file,
      total_found = length piping_lines_data,
      pid_identifier = pid,
      piping_lines = concat (map (make_entry piping_lines_data) (sort (map fst piping_lines_data)))\<rparr>"

text \<open>
  Steps 3 to 6 of \<^verbatim>\<open>process_pdf_to_piping_lines\<close>, from the text and the layout spans
  of the document to the result that is written.
\<close>

definition process_text :: "string \<Rightarrow> span list \<Rightarrow> string \<Rightarrow> extraction_result" where
  "process_text txt layout_info pdf_file =
     (let pid = extract_pid_identifier txt;
          piping_lines_data = extract_piping_line_numbers txt layout_info
      in save_results_as_json (validated_lines_data piping_lines_data) pdf_file pid)"

section \<open>Flattening the document\<close>

text \<open>
  The dictionary returned by the document service. Every key that the source looks up
  with \<^verbatim>\<open>in\<close> or \<^verbatim>\<open>get\<close> may be missing, so every field is optional. The indices of a
  segment are the values of \<^verbatim>\<open>int(...)\<close>, the coordinates of a vertex are numbers.
\<close>

record segment =
  startIndex :: "int option"
  endIndex :: "int option"

record vertex =
  vertex_x :: "int option"
  vertex_y :: "int option"

record bounding_poly =
  vertices :: "vertex list option"

record text_anchor =
  textSegments :: "segment list option"

record token_layout =
  textAnchor :: "text_anchor option"
  boundingPoly :: "bounding_poly option"

record token =
  layout :: "token_layout option"

record page =
  tokens :: "token list option"

record document =
  doc_text :: "string option"
  doc_pages :: "page list option"

datatype py_error = IndexError

text \<open>\<^verbatim>\<open>xs[i]\<close> for an index that is not negative: out of range raises.\<close>

definition py_index :: "'a list \<Rightarrow> nat \<Rightarrow> py_error + 'a" where
  "py_index xs i = (if i < length xs then Inr (xs ! i) else Inl IndexError)"

text \<open>\<^verbatim>\<open>d.get(key, 0)\<close>.\<close>

definition get0 :: "int option \<Rightarrow> int" where
  "get0 v = (case v of None \<Rightarrow> 0 | Some n \<Rightarrow> n)"

text \<open>
  \<^verbatim>\<open>s[i:j]\<close>: a negative index counts from the end, and both indices are clamped to
  the string.
\<close>

definition slice_index :: "nat \<Rightarrow> int \<Rightarrow> nat" where
  "slice_index n i = (if i < 0 then nat (max 0 (int n + i)) else min n (nat i))"

definition py_slice :: "string \<Rightarrow> int \<Rightarrow> int \<Rightarrow> string" where
  "py_slice s i j =
     (let a = slice_index (length s) i; b = slice_index (length s) j
      in take (b - a) (drop a s))"

text \<open>
  The bounding box of a token, as computed for each of its segments: \<^verbatim>\<open>None\<close> without
  a polygon or with an empty list of vertices, otherwise built from the vertices at the
  indices 0 and 2.
\<close>

definition token_bbox :: "token_layout \<Rightarrow> py_error + bbox option" where
  "token_bbox lay =
     (case boundingPoly lay of
        None \<Rightarrow> Inr None
      | Some poly \<Rightarrow>
          (let vs = (case vertices poly of None \<Rightarrow> [] | Some l \<Rightarrow> l) in
           if vs \<noteq> [] then
             (case py_index vs 0 of
                Inl e \<Rightarrow> Inl e
              | Inr v0 \<Rightarrow>
                  (case py_index vs 2 of
                     Inl e \<Rightarrow> Inl e
                   | Inr v2 \<Rightarrow>
                       Inr (Some \<lparr>bbox_x = get0 (vertex_x v0),
                                  bbox_y = get0 (vertex_y v0),
                                  bbox_width = get0 (vertex_x v2) - get0 (vertex_x v0),
                                  bbox_height = get0 (vertex_y v2) - get0 (vertex_y v0)\<rparr>)))
           else Inr None))"

text \<open>The entry appended to \<^verbatim>\<open>layout_info\<close> for one segment.\<close>

definition make_span :: "string \<Rightarrow> segment \<Rightarrow> bbox option \<Rightarrow> span" where
  "make_span txt seg bb =
     (let start_idx = get0 (startIndex seg);
          end_idx = get0 (endIndex seg)
      in \<lparr>span_start = start_idx, span_end = end_idx, span_bbox = bb,
          span_text = (if end_idx \<le> int (length txt) then py_slice txt start_idx end_idx else [])\<rparr>)"

text \<open>The loops over the segments of a token, the tokens of a page and the pages.\<close>

fun segments_loop ::
    "string \<Rightarrow> token_layout \<Rightarrow> segment list \<Rightarrow> span list \<Rightarrow> py_error + span list" where
  "segments_loop txt lay [] layout_info = Inr layout_info"
| "segments_loop txt lay (seg # segs) layout_info =
     (case token_bbox lay of
        Inl e \<Rightarrow> Inl e
      | Inr bb \<Rightarrow> segments_loop txt lay segs (layout_info @ [make_span txt seg bb]))"

definition token_step :: "string \<Rightarrow> token \<Rightarrow> span list \<Rightarrow> py_error + span list" where
  "token_step txt tok layout_info =
     (case layout tok of
        None \<Rightarrow> Inr layout_info
      | Some lay \<Rightarrow>
          (case textAnchor lay of
             None \<Rightarrow> Inr layout_info
           | Some anchor \<Rightarrow>
               (case textSegments anchor of
                  None \<Rightarrow> Inr layout_info
                | Some segs \<Rightarrow> segments_loop txt lay segs layout_info)))"

fun tokens_loop :: "string \<Rightarrow> token list \<Rightarrow> span list \<Rightarrow> py_error + span list" where
  "tokens_loop txt [] layout_info = Inr layout_info"
| "tokens_loop txt (tok # toks) layout_info =
     (case token_step txt tok layout_info of
        Inl e \<Rightarrow> Inl e
      | Inr layout_info' \<Rightarrow> tokens_loop txt toks layout_info')"

fun pages_loop :: "string \<Rightarrow> page list \<Rightarrow> span list \<Rightarrow> py_error + span list" where
  "pages_loop txt [] layout_info = Inr layout_info"
| "pages_loop txt (pg # pgs) layout_info =
     (case (case tokens pg of
              None \<Rightarrow> Inr layout_info
            | Some toks \<Rightarrow> tokens_loop txt toks layout_info) of
        Inl e \<Rightarrow> Inl e
      | Inr layout_info' \<Rightarrow> pages_loop txt pgs layout_info')"

definition extract_text_and_layout_from_document ::
    "document \<Rightarrow> py_error + (string \<times> span list)" where
  "extract_text_and_layout_from_document document_dict =
     (let txt = (case doc_text document_dict of None \<Rightarrow> [] | Some t \<Rightarrow> t) in
      case (case doc_pages document_dict of
              None \<Rightarrow> Inr []
            | Some pgs \<Rightarrow> pages_loop txt pgs []) of
        Inl e \<Rightarrow> Inl e
      | Inr layout_info \<Rightarrow> Inr (txt, layout_info))"

text \<open>
  A token is well formed when its list of vertices, if it has one that is not empty,
  holds the three vertices that the source reads.
\<close>

definition poly_ok :: "token_layout \<Rightarrow> bool" where
  "poly_ok lay \<longleftrightarrow>
     (case boundingPoly lay of
        None \<Rightarrow> True
      | Some poly \<Rightarrow>
          (case vertices poly of
             None \<Rightarrow> True
           | Some vs \<Rightarrow> vs = [] \<or> 3 \<le> length vs))"

definition token_ok :: "token \<Rightarrow> bool" where
  "token_ok tok \<longleftrightarrow> (case layout tok of None \<Rightarrow> True | Some lay \<Rightarrow> poly_ok lay)"

definition page_ok :: "page \<Rightarrow> bool" where
  "page_ok pg \<longleftrightarrow> (case tokens pg of None \<Rightarrow> True | Some toks \<Rightarrow> list_all token_ok toks)"

definition document_ok :: "document \<Rightarrow> bool" where
  "document_ok d \<longleftrightarrow> (case doc_pages d of None \<Rightarrow> True | Some pgs \<Rightarrow> list_all page_ok pgs)"

text \<open>The segments of a document in the order of the pages, tokens and segments.\<close>

definition token_segments :: "token \<Rightarrow> segment list" where
  "token_segments tok =
     (case layout tok of
        None \<Rightarrow> []
      | Some lay \<Rightarrow>
          (case textAnchor lay of
             None \<Rightarrow> []
           | Some anchor \<Rightarrow> (case textSegments anchor of None \<Rightarrow> [] | Some segs \<Rightarrow> segs)))"

definition page_segments :: "page \<Rightarrow> segment list" where
  "page_segments pg =
     (case tokens pg of None \<Rightarrow> [] | Some toks \<Rightarrow> concat (map token_segments toks))"

definition document_segments :: "document \<Rightarrow> segment list" where
  "document_segments d =
     (case doc_pages d of None \<Rightarrow> [] | Some pgs \<Rightarrow> concat (map page_segments pgs))"

definition document_text :: "document \<Rightarrow> string" where
  "document_text d = (case doc_text d of None \<Rightarrow> [] | Some t \<Rightarrow> t)"

text \<open>The text field that a span has by the rule of the flattening.\<close>

definition span_text_ok :: "string \<Rightarrow> span \<Rightarrow> bool" where
  "span_text_ok txt sp \<longleftrightarrow>
     span_text sp =
       (if span_end sp \<le> int (length txt) then py_slice txt (span_start sp) (span_end sp)
        else [])"

definition segment_range :: "segment \<Rightarrow> int \<times> int" where
  "segment_range seg = (get0 (startIndex seg), get0 (endIndex seg))"

definition span_range :: "span \<Rightarrow> int \<times> int" where
  "span_range sp = (span_start sp, span_end sp)"

text \<open>
  Two documents of one page and one token. The first has the text \<^verbatim>\<open>abcd\<close>, a polygon
  of four vertices and two segments, the second of which ends beyond the text. The second
  document has a polygon with a single vertex.
\<close>

definition sample_document :: document where
  "sample_document =
     \<lparr>doc_text = Some ''abcd'',
      doc_pages = Some
        [\<lparr>tokens = Some
           [\<lparr>layout = Some
              \<lparr>textAnchor = Some
                 \<lparr>textSegments = Some
                    [\<lparr>startIndex = None, endIndex = Some 2\<rparr>,
                     \<lparr>startIndex = Some 1, endIndex = Some 9\<rparr>]\<rparr>,
               boundingPoly = Some
                 \<lparr>vertices = Some
                    [\<lparr>vertex_x = Some 10, vertex_y = Some 20\<rparr>,
                     \<lparr>vertex_x = Some 50, vertex_y = Some 20\<rparr>,
                     \<lparr>vertex_x = Some 50, vertex_y = Some 32\<rparr>,
                     \<lparr>vertex_x = Some 10, vertex_y = Some 32\<rparr>]\<rparr>\<rparr>\<rparr>]\<rparr>]\<rparr>"

definition short_polygon_document :: document where
  "short_polygon_document =
     \<lparr>doc_text = Some ''AB'',
      doc_pages = Some
        [\<lparr>tokens = Some
           [\<lparr>layout = Some
              \<lparr>textAnchor = Some
                 \<lparr>textSegments = Some [\<lparr>startIndex = Some 0, endIndex = Some 2\<rparr>]\<rparr>,
               boundingPoly = Some
                 \<lparr>vertices = Some [\<lparr>vertex_x = Some 1, vertex_y = Some 2\<rparr>]\<rparr>\<rparr>\<rparr>]\<rparr>]\<rparr>"

section \<open>Notions used to state the properties\<close>





text \<open>
  The validation rule in words: four components, a letter and a digit somewhere, a length
  from 7 to 20, a digit in the first component, and a fourth component that is made of
  alphanumeric characters only (and of at least one).
\<close>

definition satisfies_validation_rule :: "string \<Rightarrow> bool" where
  "satisfies_validation_rule s \<longleftrightarrow>
     length (py_split dash s) = 4
     \<and> (\<exists>c \<in> set s. is_alpha c) \<and> (\<exists>c \<in> set s. is_digit c)
     \<and> 7 \<le> length s \<and> length s \<le> 20
     \<and> (\<exists>c \<in> set (py_split dash s ! 0). is_digit c)
     \<and> py_split dash s ! 3 \<noteq> [] \<and> (\<forall>c \<in> set (py_split dash s ! 3). is_alnum c)"

text \<open>
  The matches of the three loops of \<^verbatim>\<open>extract_piping_line_numbers\<close> in the order in which
  the loops visit them: by line, then by pattern, then by position in the line. Each is
  given with its line number and its line.
\<close>

definition line_matches :: "nat \<times> string \<Rightarrow> (nat \<times> string \<times> string) list" where
  "line_matches nl =
     concat (map (\<lambda>pattern. map (\<lambda>m. (fst nl, snd nl, m)) (re_findall (ignorecase pattern) (snd nl)))
                 patterns)"

definition raw_matches :: "string \<Rightarrow> (nat \<times> string \<times> string) list" where
  "raw_matches txt = concat (map line_matches (enumerate 1 (py_split newline txt)))"

text \<open>The test on the cleaned match: a dash and a letter.\<close>

definition accepted :: "string \<Rightarrow> bool" where
  "accepted m \<longleftrightarrow> dash \<in> set (upper (strip m)) \<and> re_search_class is_upper (upper (strip m))"

text \<open>The normalised identifier of a match with the data recorded for it.\<close>

definition candidate :: "string \<Rightarrow> span list \<Rightarrow> nat \<times> string \<times> string \<Rightarrow> string \<times> line_data" where
  "candidate txt layout_info r =
     (case r of (line_num, line, m) \<Rightarrow>
        (normalize_piping_line (upper (strip m)),
         (line_num, take 100 (strip line), find_coordinates_for_text m txt layout_info)))"

definition candidates :: "string \<Rightarrow> span list \<Rightarrow> (string \<times> line_data) list" where
  "candidates txt layout_info =
     map (candidate txt layout_info) (filter (\<lambda>r. accepted (snd (snd r))) (raw_matches txt))"

text \<open>
  The strings that a pattern can match, with the offsets of its marks: the word
  boundaries put no condition on the string itself.
\<close>

fun shape :: "item list \<Rightarrow> string \<Rightarrow> nat list \<Rightarrow> bool" where
  "shape [] w ms \<longleftrightarrow> w = [] \<and> ms = []"
| "shape (Bnd # its) w ms \<longleftrightarrow> shape its w ms"
| "shape (Mark # its) w ms \<longleftrightarrow> (\<exists>ms'. ms = 0 # ms' \<and> shape its w ms')"
| "shape (Cls P # its) w ms \<longleftrightarrow>
     (\<exists>c cs ms'. w = c # cs \<and> P c \<and> ms = map Suc ms' \<and> shape its cs ms')"
| "shape (Rep P lo hi # its) w ms \<longleftrightarrow>
     (\<exists>n ms'. n \<le> length w \<and> lo \<le> n \<and> (case hi of None \<Rightarrow> True | Some h \<Rightarrow> n \<le> h)
        \<and> list_all P (take n w) \<and> ms = map (\<lambda>m. n + m) ms' \<and> shape its (drop n w) ms')"

text \<open>Storing a key with its data unless the key is already there.\<close>

definition insert_first :: "string \<times> line_data \<Rightarrow> piping_dict \<Rightarrow> piping_dict" where
  "insert_first kv d = (if map_of d (fst kv) = None then d @ [kv] else d)"

text \<open>A text of two lines that hold the same identifier, without and with the inch mark.\<close>

definition two_lines :: string where
  "two_lines = ''6-P-101-CS'' @ [newline] @ ''x 6'' @ [inch] @ ''-P-101-CS''"


text \<open>The text of the end-to-end example: two lines, an identifier and a drawing number.\<close>

definition reactor_text :: string where
  "reactor_text =
     ''Size 6'' @ [inch] @ ''-P-101-CS to reactor'' @ [newline] @ ''DWG. NO. XY-99-PID''"

text \<open>
  The characters of the first component of pattern 3, \<^verbatim>\<open>[A-Z0-9"]\<close>, and a component
  of one to \<open>n\<close> characters of a class.
\<close>

definition first_class :: "char \<Rightarrow> bool" where
  "first_class c \<longleftrightarrow> is_upper_alnum c \<or> c = inch"

definition component_ok :: "(char \<Rightarrow> bool) \<Rightarrow> nat \<Rightarrow> string \<Rightarrow> bool" where
  "component_ok P n w \<longleftrightarrow> w \<noteq> [] \<and> length w \<le> n \<and> list_all P w"

text \<open>
  The form of a match of one of the three patterns, before it is uppercased, and the form
  of an identifier stored by the extraction: four components, the second of one to three
  letters, the third of one to three and the fourth of one to four letters or digits.
\<close>

definition raw_shape :: "string \<Rightarrow> bool" where
  "raw_shape m \<longleftrightarrow>
     (\<exists>A B C D. m = A @ dash # B @ dash # C @ dash # D
        \<and> component_ok (ci first_class) 4 A \<and> component_ok (ci is_upper) 3 B
        \<and> component_ok (ci is_upper_alnum) 3 C \<and> component_ok (ci is_upper_alnum) 4 D)"

definition candidate_shape :: "string \<Rightarrow> bool" where
  "candidate_shape k \<longleftrightarrow>
     (case py_split dash k of
        [A, B, C, D] \<Rightarrow>
          component_ok first_class 5 A \<and> component_ok is_upper 3 B
          \<and> component_ok is_upper_alnum 3 C \<and> component_ok is_upper_alnum 4 D
      | _ \<Rightarrow> False)"

text \<open>A string of four components whose second component is made of digits.\<close>

definition digit_second :: string where
  "digit_second = ''6'' @ [inch] @ ''-12-101-CS''"






section \<open>Splitting and joining\<close>

lemma py_split_nonempty: "py_split sep s \<noteq> []"
  by (induction s) (auto split: list.splits)

lemma py_split_no_sep: "w \<in> set (py_split sep s) \<Longrightarrow> sep \<notin> set w"
  by (induction s arbitrary: w) (auto split: if_splits list.splits)

lemma py_join_split: "py_join [sep] (py_split sep s) = s"
proof (induction s)
  case Nil
  show ?case by simp
next
  case (Cons c cs)
  obtain w ws where ws: "py_split sep cs = w # ws"
    using py_split_nonempty [of sep cs] by (cases "py_split sep cs") auto
  show ?case
    using Cons ws by (cases ws) auto
qed

lemma py_join_Cons: "ws \<noteq> [] \<Longrightarrow> py_join sep (w # ws) = w @ sep @ py_join sep ws"
  by (cases ws) auto

lemma py_split_append_sep:
  "sep \<notin> set w \<Longrightarrow> py_split sep (w @ sep # s) = w # py_split sep s"
  by (induction w) auto

lemma py_split_no_sep_single: "sep \<notin> set w \<Longrightarrow> py_split sep w = [w]"
  by (induction w) auto

lemma py_split_join:
  "ws \<noteq> [] \<Longrightarrow> \<forall>w \<in> set ws. sep \<notin> set w \<Longrightarrow> py_split sep (py_join [sep] ws) = ws"
proof (induction ws)
  case Nil
  then show ?case by simp
next
  case (Cons w ws)
  show ?case
  proof (cases ws)
    case Nil
    with Cons.prems show ?thesis by (simp add: py_split_no_sep_single)
  next
    case (Cons v vs)
    with Cons.IH Cons.prems show ?thesis
      by (simp add: py_split_append_sep)
  qed
qed

lemma py_split_hd_tl: "py_split sep s = hd (py_split sep s) # tl (py_split sep s)"
  using py_split_nonempty [of sep s] by simp

lemma py_split_length_ge1: "Suc 0 \<le> length (py_split sep s)"
  using py_split_nonempty [of sep s] by (cases "py_split sep s") auto

section \<open>Normalisation\<close>


lemma re_match_plus_eol_no_newline:
  "newline \<notin> set w \<Longrightarrow> re_match_plus_eol P w \<longleftrightarrow> w \<noteq> [] \<and> list_all P w"
proof -
  assume n: "newline \<notin> set w"
  have "w \<noteq> [] \<Longrightarrow> last w \<noteq> newline"
    using n last_in_set [of w] by metis
  then show ?thesis
    by (auto simp: re_match_plus_eol_def Let_def)
qed

lemma split_normalize:
  "py_split dash (normalize_piping_line s) =
     (if re_match_plus_eol is_digit (hd (py_split dash s))
      then (hd (py_split dash s) @ [inch]) # tl (py_split dash s)
      else py_split dash s)"
proof (cases "re_match_plus_eol is_digit (hd (py_split dash s))")
  case False
  then show ?thesis by (simp add: normalize_piping_line_def Let_def)
next
  case True
  let ?cs = "py_split dash s"
  let ?ws = "(hd ?cs @ [inch]) # tl ?cs"
  have n: "normalize_piping_line s = py_join [dash] ?ws"
    using True by (simp add: normalize_piping_line_def Let_def py_split_length_ge1)
  have "\<forall>w \<in> set ?cs. dash \<notin> set w" using py_split_no_sep by blast
  moreover have "set ?cs = insert (hd ?cs) (set (tl ?cs))"
    using py_split_hd_tl [of dash s] by (metis list.simps(15))
  ultimately have "\<forall>w \<in> set ?ws. dash \<notin> set w"
    by (auto simp: dash_def inch_def)
  then have sp: "py_split dash (py_join [dash] ?ws) = ?ws"
    by (intro py_split_join) auto
  show ?thesis
    using True unfolding n sp by simp
qed






section \<open>Flattening: the spans of a document\<close>

lemma token_bbox_ok: "poly_ok lay \<Longrightarrow> \<exists>bb. token_bbox lay = Inr bb"
  by (auto simp: poly_ok_def token_bbox_def py_index_def Let_def split: option.splits)

lemma make_span_text_ok: "span_text_ok txt (make_span txt seg bb)"
  by (simp add: span_text_ok_def make_span_def Let_def)

lemma make_span_range: "span_range (make_span txt seg bb) = segment_range seg"
  by (simp add: span_range_def segment_range_def make_span_def Let_def)

lemma segments_loop_Inr:
  "token_bbox lay = Inr bb \<Longrightarrow>
   segments_loop txt lay segs acc = Inr (acc @ map (\<lambda>seg. make_span txt seg bb) segs)"
  by (induction segs arbitrary: acc) auto

lemma segments_loop_sound:
  "segments_loop txt lay segs acc = Inr out \<Longrightarrow>
   \<exists>bb. out = acc @ map (\<lambda>seg. make_span txt seg bb) segs"
proof (cases "token_bbox lay")
  case (Inl e)
  then show "segments_loop txt lay segs acc = Inr out \<Longrightarrow> ?thesis"
    by (cases segs) auto
next
  case (Inr bb)
  then show "segments_loop txt lay segs acc = Inr out \<Longrightarrow> ?thesis"
    using segments_loop_Inr [OF Inr] by auto
qed

lemma token_step_sound:
  assumes "token_step txt tok acc = Inr out"
  shows "\<exists>new. out = acc @ new \<and> list_all (span_text_ok txt) new
              \<and> map span_range new = map segment_range (token_segments tok)"
proof -
  have *: "\<exists>new. acc @ map (\<lambda>seg. make_span txt seg bb) segs = acc @ new
              \<and> list_all (span_text_ok txt) new
              \<and> map span_range new = map segment_range segs" for bb segs
    by (auto simp: list_all_iff make_span_text_ok make_span_range)
  show ?thesis
  proof (cases "layout tok")
    case None
    with assms show ?thesis by (simp add: token_step_def token_segments_def)
  next
    case lay: (Some lay)
    show ?thesis
    proof (cases "textAnchor lay")
      case None
      with assms lay show ?thesis by (simp add: token_step_def token_segments_def)
    next
      case anc: (Some anchor)
      show ?thesis
      proof (cases "textSegments anchor")
        case None
        with assms lay anc show ?thesis by (simp add: token_step_def token_segments_def)
      next
        case (Some segs)
        with assms lay anc have "segments_loop txt lay segs acc = Inr out"
          by (simp add: token_step_def)
        from segments_loop_sound [OF this] obtain bb
          where "out = acc @ map (\<lambda>seg. make_span txt seg bb) segs" by blast
        with * [of bb segs] show ?thesis
          using lay anc Some by (simp add: token_segments_def)
      qed
    qed
  qed
qed

lemma token_step_ok: "token_ok tok \<Longrightarrow> \<exists>out. token_step txt tok acc = Inr out"
  using token_bbox_ok segments_loop_Inr
  by (fastforce simp: token_step_def token_ok_def split: option.splits)

lemma tokens_loop_sound:
  "tokens_loop txt toks acc = Inr out \<Longrightarrow>
   \<exists>new. out = acc @ new \<and> list_all (span_text_ok txt) new
         \<and> map span_range new = map segment_range (concat (map token_segments toks))"
proof (induction toks arbitrary: acc)
  case Nil
  then show ?case by simp
next
  case (Cons tok toks)
  from Cons.prems obtain mid where m: "token_step txt tok acc = Inr mid"
    and r: "tokens_loop txt toks mid = Inr out"
    by (auto split: sum.splits)
  from token_step_sound [OF m] obtain n1 where n1: "mid = acc @ n1"
    "list_all (span_text_ok txt) n1" "map span_range n1 = map segment_range (token_segments tok)"
    by blast
  from Cons.IH [OF r] obtain n2 where n2: "out = mid @ n2"
    "list_all (span_text_ok txt) n2"
    "map span_range n2 = map segment_range (concat (map token_segments toks))"
    by blast
  show ?case
    using n1 n2 by (intro exI[where x = "n1 @ n2"]) simp
qed

lemma tokens_loop_ok:
  "list_all token_ok toks \<Longrightarrow> \<exists>out. tokens_loop txt toks acc = Inr out"
proof (induction toks arbitrary: acc)
  case Nil
  then show ?case by simp
next
  case (Cons tok toks)
  then obtain mid where "token_step txt tok acc = Inr mid"
    using token_step_ok [of tok "txt" acc] by auto
  with Cons show ?case by simp
qed

lemma page_step_sound:
  assumes "(case tokens pg of None \<Rightarrow> Inr acc | Some toks \<Rightarrow> tokens_loop txt toks acc) = Inr out"
  shows "\<exists>new. out = acc @ new \<and> list_all (span_text_ok txt) new
         \<and> map span_range new = map segment_range (page_segments pg)"
  using assms tokens_loop_sound [of "txt" _ acc out]
  by (cases "tokens pg") (auto simp: page_segments_def)

lemma pages_loop_sound:
  "pages_loop txt pgs acc = Inr out \<Longrightarrow>
   \<exists>new. out = acc @ new \<and> list_all (span_text_ok txt) new
         \<and> map span_range new = map segment_range (concat (map page_segments pgs))"
proof (induction pgs arbitrary: acc)
  case Nil
  then show ?case by simp
next
  case (Cons pg pgs)
  from Cons.prems obtain mid where
    m: "(case tokens pg of None \<Rightarrow> Inr acc | Some toks \<Rightarrow> tokens_loop txt toks acc) = Inr mid"
    and r: "pages_loop txt pgs mid = Inr out"
    by (auto split: sum.splits)
  from page_step_sound [OF m] obtain n1 where n1: "mid = acc @ n1"
    "list_all (span_text_ok txt) n1" "map span_range n1 = map segment_range (page_segments pg)"
    by blast
  from Cons.IH [OF r] obtain n2 where n2: "out = mid @ n2"
    "list_all (span_text_ok txt) n2"
    "map span_range n2 = map segment_range (concat (map page_segments pgs))"
    by blast
  show ?case
    using n1 n2 by (intro exI[where x = "n1 @ n2"]) simp
qed

lemma pages_loop_ok:
  "list_all page_ok pgs \<Longrightarrow> \<exists>out. pages_loop txt pgs acc = Inr out"
proof (induction pgs arbitrary: acc)
  case Nil
  then show ?case by simp
next
  case (Cons pg pgs)
  then obtain mid where
    "(case tokens pg of None \<Rightarrow> Inr acc | Some toks \<Rightarrow> tokens_loop txt toks acc) = Inr mid"
    using tokens_loop_ok [of _ "txt" acc] by (cases "tokens pg") (auto simp: page_ok_def)
  with Cons show ?case by simp
qed

text \<open>
  Claim C9. When the document is flattened without an error, which is the case for every
  document whose polygons are well formed, there is one span per segment, in order, with
  the indices of the segment; a span whose end index exceeds the length of the text has
  the empty text, and a span whose end index is within the text has the slice
  \<^verbatim>\<open>text[start:end]\<close>.
\<close>

theorem span_text_clamped:
  "(document_ok d \<longrightarrow> (\<exists>spans. extract_text_and_layout_from_document d = Inr (document_text d, spans)))
   \<and> (\<forall>txt spans. extract_text_and_layout_from_document d = Inr (txt, spans) \<longrightarrow>
         txt = document_text d
         \<and> map span_range spans = map segment_range (document_segments d)
         \<and> (\<forall>sp \<in> set spans.
               (int (length txt) < span_end sp \<longrightarrow> span_text sp = [])
               \<and> (span_end sp \<le> int (length txt) \<longrightarrow>
                    span_text sp = py_slice txt (span_start sp) (span_end sp))))"
proof (intro conjI impI allI)
  assume ok: "document_ok d"
  show "\<exists>spans. extract_text_and_layout_from_document d = Inr (document_text d, spans)"
  proof (cases "doc_pages d")
    case None
    then show ?thesis
      by (simp add: extract_text_and_layout_from_document_def document_text_def Let_def)
  next
    case (Some pgs)
    with ok have "list_all page_ok pgs" by (simp add: document_ok_def)
    from pages_loop_ok [OF this] obtain out
      where "pages_loop (document_text d) pgs [] = Inr out" by blast
    with Some show ?thesis
      by (simp add: extract_text_and_layout_from_document_def document_text_def Let_def)
  qed
next
  fix tx spans
  assume a: "extract_text_and_layout_from_document d = Inr (tx, spans)"
  show tt: "tx = document_text d"
    using a by (auto simp: extract_text_and_layout_from_document_def document_text_def Let_def
        split: sum.splits)
  have "list_all (span_text_ok tx) spans
        \<and> map span_range spans = map segment_range (document_segments d)"
  proof (cases "doc_pages d")
    case None
    with a show ?thesis
      by (auto simp: extract_text_and_layout_from_document_def document_segments_def Let_def)
  next
    case (Some pgs)
    with a tt have "pages_loop tx pgs [] = Inr spans"
      by (auto simp: extract_text_and_layout_from_document_def document_text_def Let_def
          split: sum.splits)
    from pages_loop_sound [OF this] show ?thesis
      using Some by (auto simp: document_segments_def)
  qed
  then show "map span_range spans = map segment_range (document_segments d)"
    and "\<forall>sp \<in> set spans.
               (int (length tx) < span_end sp \<longrightarrow> span_text sp = [])
               \<and> (span_end sp \<le> int (length tx) \<longrightarrow>
                    span_text sp = py_slice tx (span_start sp) (span_end sp))"
    by (auto simp: list_all_iff span_text_ok_def)
qed

theorem span_text_clamped_witness:
  "document_ok sample_document
   \<and> extract_text_and_layout_from_document sample_document =
       Inr (''abcd'',
            [\<lparr>span_start = 0, span_end = 2,
              span_bbox = Some \<lparr>bbox_x = 10, bbox_y = 20, bbox_width = 40, bbox_height = 12\<rparr>,
              span_text = ''ab''\<rparr>,
             \<lparr>span_start = 1, span_end = 9,
              span_bbox = Some \<lparr>bbox_x = 10, bbox_y = 20, bbox_width = 40, bbox_height = 12\<rparr>,
              span_text = []\<rparr>])"
  using span_text_clamped [of sample_document]
  by (simp add: sample_document_def document_ok_def page_ok_def token_ok_def poly_ok_def
      extract_text_and_layout_from_document_def token_step_def token_bbox_def py_index_def
      make_span_def get0_def py_slice_def slice_index_def Let_def)

text \<open>
  Claim C8. The source guards the polygon with \<^verbatim>\<open>if vertices:\<close> and then reads
  \<^verbatim>\<open>vertices[2]\<close>. A token with a segment and a polygon of one vertex makes the
  flattening end in an \<^verbatim>\<open>IndexError\<close> instead of returning.
\<close>

theorem short_polygon_raises:
  "extract_text_and_layout_from_document short_polygon_document = Inl IndexError"
  by (simp add: short_polygon_document_def extract_text_and_layout_from_document_def
      token_step_def token_bbox_def py_index_def Let_def)

section \<open>Coordinates\<close>

















section \<open>Validation\<close>

lemma py_split_subset: "w \<in> set (py_split sep s) \<Longrightarrow> set w \<subseteq> set s"
proof (induction s arbitrary: w)
  case Nil
  then show ?case by simp
next
  case (Cons c cs)
  obtain v vs where vs: "py_split sep cs = v # vs"
    using py_split_nonempty [of sep cs] by (cases "py_split sep cs") auto
  have "set v \<subseteq> set cs" "\<forall>u \<in> set vs. set u \<subseteq> set cs"
    using Cons.IH vs by auto
  with Cons.prems vs show ?case by (auto split: if_splits)
qed

lemma validate_unfold:
  "validate_piping_line s \<longleftrightarrow>
     length (py_split dash s) = 4
     \<and> (\<exists>c \<in> set s. is_upper c) \<and> (\<exists>c \<in> set s. is_digit c)
     \<and> 7 \<le> length s \<and> length s \<le> 20
     \<and> (\<exists>c \<in> set (py_split dash s ! 0). is_digit c)
     \<and> re_match_plus_eol is_upper_alnum (py_split dash s ! 3)"
  by (auto simp: validate_piping_line_def re_search_class_def list_ex_iff Let_def)

lemma validate_rule:
  assumes up: "\<forall>c \<in> set s. \<not> is_lower c" and nl: "newline \<notin> set s"
  shows "validate_piping_line s \<longleftrightarrow> satisfies_validation_rule s"
proof (cases "length (py_split dash s) = 4")
  case False
  then show ?thesis by (simp add: validate_unfold satisfies_validation_rule_def)
next
  case True
  then have "py_split dash s ! 3 \<in> set (py_split dash s)" by simp
  then have sub: "set (py_split dash s ! 3) \<subseteq> set s" by (rule py_split_subset)
  have a: "(\<exists>c \<in> set s. is_upper c) \<longleftrightarrow> (\<exists>c \<in> set s. is_alpha c)"
    using up by (auto simp: is_alpha_def)
  have "newline \<notin> set (py_split dash s ! 3)" using sub nl by blast
  then have b: "re_match_plus_eol is_upper_alnum (py_split dash s ! 3) \<longleftrightarrow>
      py_split dash s ! 3 \<noteq> [] \<and> list_all is_upper_alnum (py_split dash s ! 3)"
    by (rule re_match_plus_eol_no_newline)
  have c: "list_all is_upper_alnum (py_split dash s ! 3) \<longleftrightarrow>
      (\<forall>c \<in> set (py_split dash s ! 3). is_alnum c)"
    using up sub by (auto simp: list_all_iff is_upper_alnum_def is_alnum_def is_alpha_def)
  show ?thesis
    unfolding validate_unfold satisfies_validation_rule_def a b c by blast
qed

lemma validated_keys: "k \<in> fst ` set (validated_lines_data d) \<Longrightarrow> validate_piping_line k"
  by (auto simp: validated_lines_data_def)

text \<open>
  Claim C1. On an uppercased candidate, that is a string without lowercase letters and
  without a newline, \<^verbatim>\<open>validate_piping_line\<close> returns true exactly when the string has four
  dash-separated components, a letter and a digit, a length from 7 to 20, a digit in the
  first component and a fourth component made of alphanumeric characters. The function
  returns a truth value for every string, and a candidate that fails is not among the
  validated entries.
\<close>

theorem validate_piping_line_rule:
  "\<forall>c \<in> set s. \<not> is_lower c \<Longrightarrow> newline \<notin> set s \<Longrightarrow>
   (validate_piping_line s \<longleftrightarrow> satisfies_validation_rule s)
   \<and> (\<not> validate_piping_line s \<longrightarrow> s \<notin> fst ` set (validated_lines_data d))"
  using validate_rule [of s] validated_keys [of s d] by blast

theorem validate_piping_line_rule_witness:
  "validate_piping_line (''6'' @ [inch] @ ''-P-101-CS'')
   \<and> length (py_split dash (''6'' @ [inch] @ ''-P-101-CS'')) = 4
   \<and> \<not> validate_piping_line (''6'' @ [inch] @ ''-P-101'')
   \<and> ''6'' @ [inch] @ ''-P-101''
        \<notin> fst ` set (validated_lines_data [(''6'' @ [inch] @ ''-P-101'', 1, ''x'', None)])"
proof -
  have h1: "\<forall>c \<in> set (''6'' @ [inch] @ ''-P-101-CS''). \<not> is_lower c"
    by (simp add: is_lower_def inch_def)
  have h2: "newline \<notin> set (''6'' @ [inch] @ ''-P-101-CS'')"
    by (simp add: newline_def inch_def)
  have h3: "\<forall>c \<in> set (''6'' @ [inch] @ ''-P-101''). \<not> is_lower c"
    by (simp add: is_lower_def inch_def)
  have h4: "newline \<notin> set (''6'' @ [inch] @ ''-P-101'')"
    by (simp add: newline_def inch_def)
  have v: "validate_piping_line (''6'' @ [inch] @ ''-P-101-CS'')" by code_simp
  have w: "\<not> validate_piping_line (''6'' @ [inch] @ ''-P-101'')" by code_simp
  from validate_piping_line_rule [OF h1 h2]
    validate_piping_line_rule [OF h3 h4, of "[(''6'' @ [inch] @ ''-P-101'', 1, ''x'', None)]"]
    v w
  show ?thesis by (simp add: satisfies_validation_rule_def)
qed

section \<open>The dictionary of extracted lines\<close>

lemma record_match_insert:
  "record_match t lay ln line m d =
     (if accepted m then insert_first (candidate t lay (ln, line, m)) d else d)"
  by (simp add: record_match_def accepted_def candidate_def insert_first_def Let_def)

lemma fold_matches:
  "fold (record_match t lay ln line) ms d =
   fold insert_first (map (candidate t lay) (filter (\<lambda>r. accepted (snd (snd r)))
        (map (\<lambda>m. (ln, line, m)) ms))) d"
  by (induction ms arbitrary: d) (simp_all add: record_match_insert)

lemma fold_patterns:
  "fold (\<lambda>pattern. fold (record_match t lay ln line) (re_findall (ignorecase pattern) line)) ps d =
   fold insert_first (map (candidate t lay) (filter (\<lambda>r. accepted (snd (snd r)))
        (concat (map (\<lambda>pattern. map (\<lambda>m. (ln, line, m)) (re_findall (ignorecase pattern) line)) ps)))) d"
  by (induction ps arbitrary: d) (simp_all add: fold_matches)

lemma line_step:
  "(case nl of (ln, line) \<Rightarrow> fold (\<lambda>pattern. fold (record_match t lay ln line)
         (re_findall (ignorecase pattern) line)) patterns) d =
   fold insert_first (map (candidate t lay) (filter (\<lambda>r. accepted (snd (snd r)))
        (line_matches nl))) d"
  by (cases nl) (simp add: fold_patterns line_matches_def)

lemma fold_lines:
  "fold (\<lambda>(ln, line). fold (\<lambda>pattern. fold (record_match t lay ln line)
         (re_findall (ignorecase pattern) line)) patterns) ls d =
   fold insert_first (map (candidate t lay) (filter (\<lambda>r. accepted (snd (snd r)))
        (concat (map line_matches ls)))) d"
proof (induction ls arbitrary: d)
  case Nil
  show ?case by simp
next
  case (Cons nl ls)
  let ?f = "\<lambda>(ln, line). fold (\<lambda>pattern. fold (record_match t lay ln line)
         (re_findall (ignorecase pattern) line)) patterns"
  let ?g = "\<lambda>rs. map (candidate t lay) (filter (\<lambda>r. accepted (snd (snd r))) rs)"
  have "fold ?f (nl # ls) d = fold ?f ls (?f nl d)" by simp
  also have "\<dots> = fold insert_first (?g (concat (map line_matches ls))) (?f nl d)"
    by (rule Cons.IH)
  also have "?f nl d = fold insert_first (?g (line_matches nl)) d"
    by (rule line_step)
  finally show ?case by simp
qed

lemma extract_as_fold:
  "extract_piping_line_numbers t lay = fold insert_first (candidates t lay) []"
  by (simp add: extract_piping_line_numbers_def candidates_def raw_matches_def fold_lines)

lemma map_of_fold_insert:
  "map_of (fold insert_first cs d) = map_of (d @ cs)"
proof (induction cs arbitrary: d)
  case Nil
  show ?case by simp
next
  case (Cons kv cs)
  obtain k v where kv: "kv = (k, v)" by (cases kv)
  show ?case
  proof (cases "map_of d k = None")
    case True
    then have "insert_first kv d = d @ [kv]" by (simp add: kv insert_first_def)
    then show ?thesis by (simp add: Cons.IH)
  next
    case False
    then have "map_of (d @ (k, v) # cs) = map_of (d @ cs)"
      by (auto simp: map_add_def fun_eq_iff split: option.splits)
    moreover from False have "insert_first kv d = d" by (simp add: kv insert_first_def)
    ultimately show ?thesis by (simp add: kv Cons.IH)
  qed
qed

lemma distinct_fold_insert:
  "distinct (map fst d) \<Longrightarrow> distinct (map fst (fold insert_first cs d))"
proof (induction cs arbitrary: d)
  case Nil
  then show ?case by simp
next
  case (Cons kv cs)
  have "distinct (map fst (insert_first kv d))"
    using Cons.prems by (auto simp: insert_first_def map_of_eq_None_iff)
  then show ?case using Cons.IH by simp
qed

lemma keys_fold_insert:
  "fst ` set (fold insert_first cs d) = fst ` set d \<union> fst ` set cs"
proof (induction cs arbitrary: d)
  case Nil
  show ?case by simp
next
  case (Cons kv cs)
  have "fst ` set (insert_first kv d) = insert (fst kv) (fst ` set d)"
    by (auto simp: insert_first_def map_of_eq_None_iff)
  then show ?case using Cons.IH [of "insert_first kv d"] by auto
qed

lemma extract_map_of: "map_of (extract_piping_line_numbers t lay) = map_of (candidates t lay)"
  by (simp add: extract_as_fold map_of_fold_insert)

lemma extract_distinct: "distinct (map fst (extract_piping_line_numbers t lay))"
  by (simp add: extract_as_fold distinct_fold_insert)

lemma extract_keys:
  "fst ` set (extract_piping_line_numbers t lay) = fst ` set (candidates t lay)"
  by (simp add: extract_as_fold keys_fold_insert)

lemma map_of_first:
  "k \<notin> fst ` set cs1 \<Longrightarrow> map_of (cs1 @ (k, v) # cs2) k = Some v"
  by (simp add: map_add_def map_of_eq_None_iff [THEN iffD2] split: option.splits)

text \<open>
  Claim C4. The dictionary built by \<^verbatim>\<open>extract_piping_line_numbers\<close> maps each normalised
  identifier to the data of the first candidate, in the order of lines, patterns and
  positions, that normalises to it: a later candidate with the same identifier does not
  replace it. Each identifier is stored once, and the identifiers stored are those of all
  candidates, so a duplicate does not keep another identifier out.
\<close>

theorem first_occurrence_wins:
  "map_of (extract_piping_line_numbers t lay) = map_of (candidates t lay)
   \<and> distinct (map fst (extract_piping_line_numbers t lay))
   \<and> fst ` set (extract_piping_line_numbers t lay) = fst ` set (candidates t lay)
   \<and> (\<forall>cs1 k v cs2. candidates t lay = cs1 @ (k, v) # cs2 \<and> k \<notin> fst ` set cs1 \<longrightarrow>
         map_of (extract_piping_line_numbers t lay) k = Some v
         \<and> (k, v) \<in> set (extract_piping_line_numbers t lay))"
proof (intro conjI allI impI)
  show "map_of (extract_piping_line_numbers t lay) = map_of (candidates t lay)"
    by (rule extract_map_of)
  show "distinct (map fst (extract_piping_line_numbers t lay))"
    by (rule extract_distinct)
  show "fst ` set (extract_piping_line_numbers t lay) = fst ` set (candidates t lay)"
    by (rule extract_keys)
next
  fix cs1 k v cs2
  assume a: "candidates t lay = cs1 @ (k, v) # cs2 \<and> k \<notin> fst ` set cs1"
  then have "map_of (candidates t lay) k = Some v"
    using map_of_first [of k cs1 v cs2] by simp
  then show m: "map_of (extract_piping_line_numbers t lay) k = Some v"
    by (simp only: extract_map_of)
  then show "(k, v) \<in> set (extract_piping_line_numbers t lay)"
    by (rule map_of_SomeD)
qed

theorem first_occurrence_wins_witness:
  "candidates two_lines [] =
     [] @ (''6'' @ [inch] @ ''-P-101-CS'', 1, ''6-P-101-CS'', None)
        # [(''6'' @ [inch] @ ''-P-101-CS'', 1, ''6-P-101-CS'', None),
           (''6'' @ [inch] @ ''-P-101-CS'', 2, ''x 6'' @ [inch] @ ''-P-101-CS'', None),
           (''6'' @ [inch] @ ''-P-101-CS'', 2, ''x 6'' @ [inch] @ ''-P-101-CS'', None)]
   \<and> map_of (extract_piping_line_numbers two_lines []) (''6'' @ [inch] @ ''-P-101-CS'')
       = Some (1, ''6-P-101-CS'', None)"
proof -
  have c: "candidates two_lines [] =
     [] @ (''6'' @ [inch] @ ''-P-101-CS'', 1, ''6-P-101-CS'', None)
        # [(''6'' @ [inch] @ ''-P-101-CS'', 1, ''6-P-101-CS'', None),
           (''6'' @ [inch] @ ''-P-101-CS'', 2, ''x 6'' @ [inch] @ ''-P-101-CS'', None),
           (''6'' @ [inch] @ ''-P-101-CS'', 2, ''x 6'' @ [inch] @ ''-P-101-CS'', None)]"
    by code_simp
  have n: "''6'' @ [inch] @ ''-P-101-CS'' \<notin> fst ` set ([] :: (string \<times> line_data) list)"
    by simp
  from first_occurrence_wins [of two_lines "[]"] c n show ?thesis
    by blast
qed

section \<open>The assembled result\<close>



lemma validated_key_set:
  "fst ` set (validated_lines_data d) = {k \<in> fst ` set d. validate_piping_line k}"
  by (auto simp: validated_lines_data_def image_iff)

lemma make_entry_key:
  "k \<in> fst ` set d \<Longrightarrow>
   \<exists>ln ctx co. map_of d k = Some (ln, ctx, co) \<and>
     make_entry d k = [\<lparr>piping_line_number = k, text_line_number = ln, context_text = ctx, coordinates = co\<rparr>]"
proof -
  assume "k \<in> fst ` set d"
  then obtain v where "map_of d k = Some v"
    by (metis map_of_eq_None_iff not_None_eq)
  then show ?thesis by (cases v) (auto simp: make_entry_def)
qed

lemma concat_make_entry:
  "set ks \<subseteq> fst ` set d \<Longrightarrow>
   map piping_line_number (concat (map (make_entry d) ks)) = ks
   \<and> (\<forall>e \<in> set (concat (map (make_entry d) ks)).
        map_of d (piping_line_number e) = Some (text_line_number e, context_text e, coordinates e))"
proof (induction ks)
  case Nil
  show ?case by simp
next
  case (Cons k ks)
  then have "k \<in> fst ` set d" by simp
  from make_entry_key [OF this] obtain ln ctx co where
    "map_of d k = Some (ln, ctx, co)"
    "make_entry d k = [\<lparr>piping_line_number = k, text_line_number = ln, context_text = ctx, coordinates = co\<rparr>]"
    by blast
  with Cons show ?case by auto
qed

lemma save_results_names:
  "map piping_line_number (piping_lines (save_results_as_json d pdf pid)) = sort (map fst d)"
  using concat_make_entry [of "sort (map fst d)" d]
  by (simp add: save_results_as_json_def)



lemma process_text_names:
  "map piping_line_number (piping_lines (process_text t lay pdf)) =
   sort (map fst (validated_lines_data (extract_piping_line_numbers t lay)))"
  by (simp add: process_text_def Let_def save_results_names)



lemma process_text_key_set:
  "set (map piping_line_number (piping_lines (process_text t lay pdf))) =
   {k \<in> fst ` set (candidates t lay). validate_piping_line k}"
  by (simp add: process_text_names validated_key_set extract_keys)





section \<open>The end-to-end example\<close>

lemma reactor_extract:
  "extract_piping_line_numbers reactor_text [] =
     [(''6'' @ [inch] @ ''-P-101-CS'', 1, ''Size 6'' @ [inch] @ ''-P-101-CS to reactor'', None)]"
  by code_simp

lemma reactor_pid: "extract_pid_identifier reactor_text = Some ''XY-99-PID''"
  by code_simp

lemma reactor_valid: "validate_piping_line (''6'' @ [inch] @ ''-P-101-CS'')"
  by code_simp

lemma reactor_result:
  "process_text reactor_text [] pdf =
     \<lparr>source_file = pdf, total_found = 1, pid_identifier = Some ''XY-99-PID'',
      piping_lines =
        [\<lparr>piping_line_number = ''6'' @ [inch] @ ''-P-101-CS'', text_line_number = 1,
          context_text = ''Size 6'' @ [inch] @ ''-P-101-CS to reactor'',
          coordinates = None\<rparr>]\<rparr>"
proof -
  have v: "validated_lines_data (extract_piping_line_numbers reactor_text []) =
      [(''6'' @ [inch] @ ''-P-101-CS'', 1, ''Size 6'' @ [inch] @ ''-P-101-CS to reactor'', None)]"
    using reactor_valid by (simp add: reactor_extract validated_lines_data_def)
  show ?thesis
    by (simp add: process_text_def Let_def v reactor_pid save_results_as_json_def make_entry_def)
qed

text \<open>
  Claim C2, as amended. For the text \<^verbatim>\<open>Size 6"-P-101-CS to reactor\<close>, newline,
  \<^verbatim>\<open>DWG. NO. XY-99-PID\<close> and an empty span list, the result has exactly one record: the
  identifier \<^verbatim>\<open>6"-P-101-CS\<close>, eleven characters that end in \<^verbatim>\<open>CS\<close>, at line 1, with the
  trimmed first line as context and no coordinates; \<^verbatim>\<open>pid_identifier\<close> is
  \<^verbatim>\<open>XY-99-PID\<close> and \<^verbatim>\<open>total_found\<close> is 1.
\<close>

theorem reactor_end_to_end:
  "process_text reactor_text [] pdf =
     \<lparr>source_file = pdf, total_found = 1, pid_identifier = Some ''XY-99-PID'',
      piping_lines =
        [\<lparr>piping_line_number = ''6'' @ [inch] @ ''-P-101-CS'', text_line_number = 1,
          context_text = ''Size 6'' @ [inch] @ ''-P-101-CS to reactor'',
          coordinates = None\<rparr>]\<rparr>"
  by (rule reactor_result)

text \<open>
  The claim gives the identifier of the record as \<^verbatim>\<open>6"-P-101-CS"\<close>, with an inch mark
  after \<^verbatim>\<open>CS\<close>. The record does not have that identifier, and a string that ends in an
  inch mark does not pass \<^verbatim>\<open>validate_piping_line\<close>.
\<close>

theorem reactor_identifier_counterexample:
  "map piping_line_number (piping_lines (process_text reactor_text [] ''drawing.pdf''))
     = [''6'' @ [inch] @ ''-P-101-CS'']
   \<and> ''6'' @ [inch] @ ''-P-101-CS'' \<noteq> ''6'' @ [inch] @ ''-P-101-CS'' @ [inch]
   \<and> \<not> validate_piping_line (''6'' @ [inch] @ ''-P-101-CS'' @ [inch])"
proof -
  have n: "\<not> validate_piping_line (''6'' @ [inch] @ ''-P-101-CS'' @ [inch])" by code_simp
  show ?thesis
    using n by (simp add: reactor_result)
qed

section \<open>What the matcher returns\<close>

lemma first_some_map:
  "first_some (map f ns) = Some r \<Longrightarrow> \<exists>n \<in> set ns. f n = Some r"
proof (induction ns)
  case Nil
  then show ?case by simp
next
  case (Cons n ns)
  then show ?case by (cases "f n") auto
qed

lemma take_le_takeWhile:
  "n \<le> length (takeWhile P xs) \<Longrightarrow> list_all P (take n xs)"
proof (induction xs arbitrary: n)
  case Nil
  then show ?case by simp
next
  case (Cons x xs)
  then show ?case by (cases n) (auto split: if_splits)
qed

lemma rep_prefix:
  assumes "n \<le> length (takeWhile P (case hi of None \<Rightarrow> s | Some h \<Rightarrow> take h s))"
  shows "n \<le> length s \<and> (case hi of None \<Rightarrow> True | Some h \<Rightarrow> n \<le> h) \<and> list_all P (take n s)"
proof (cases hi)
  case None
  with assms have n: "n \<le> length (takeWhile P s)" by simp
  then have "n \<le> length s" using length_takeWhile_le [of P s] by linarith
  with take_le_takeWhile [OF n] None show ?thesis by simp
next
  case (Some h)
  with assms have n: "n \<le> length (takeWhile P (take h s))" by simp
  then have l: "n \<le> length (take h s)" using length_takeWhile_le [of P "take h s"] by linarith
  then have "n \<le> h" "n \<le> length s" by simp_all
  moreover from take_le_takeWhile [OF n] have "list_all P (take n s)"
    using \<open>n \<le> h\<close> by (simp add: min.absorb1)
  ultimately show ?thesis using Some by simp
qed

lemma match_here_sound:
  "match_here its prev s = Some r \<Longrightarrow> fst r \<le> length s \<and> shape its (take (fst r) s) (snd r)"
proof (induction its arbitrary: prev s r)
  case Nil
  then show ?case by auto
next
  case (Cons it its)
  show ?case
  proof (cases it)
    case Bnd
    with Cons.prems have "match_here its prev s = Some r" by (simp split: if_splits)
    from Cons.IH [OF this] Bnd show ?thesis by simp
  next
    case Mark
    with Cons.prems obtain r' where r': "match_here its prev s = Some r'" "r = (fst r', 0 # snd r')"
      by auto
    from Cons.IH [OF r'(1)] Mark r'(2) show ?thesis by simp
  next
    case (Cls P)
    with Cons.prems obtain c cs r' where s: "s = c # cs" "P c"
      and r': "match_here its (Some c) cs = Some r'" "r = shift 1 r'"
      by (auto split: list.splits if_splits)
    from Cons.IH [OF r'(1)] have "fst r' \<le> length cs" "shape its (take (fst r') cs) (snd r')"
      by auto
    then show ?thesis
      using Cls s r'(2) by (auto simp: shift_def)
  next
    case (Rep P lo hi)
    let ?k = "length (takeWhile P (case hi of None \<Rightarrow> s | Some h \<Rightarrow> take h s))"
    from Cons.prems Rep have
      "first_some (map (\<lambda>n. map_option (shift n) (match_here its (prev_after prev s n) (drop n s)))
                       (rev [lo..<Suc ?k])) = Some r"
      by (simp add: Let_def)
    from first_some_map [OF this] obtain n r' where n: "lo \<le> n" "n \<le> ?k"
      and r': "match_here its (prev_after prev s n) (drop n s) = Some r'" "r = shift n r'"
      by auto
    from rep_prefix [OF n(2)] have p: "n \<le> length s"
      "case hi of None \<Rightarrow> True | Some h \<Rightarrow> n \<le> h" "list_all P (take n s)"
      by auto
    from Cons.IH [OF r'(1)] have ih: "fst r' \<le> length (drop n s)"
      "shape its (take (fst r') (drop n s)) (snd r')" by auto
    have f: "fst r = n + fst r'" "snd r = map (\<lambda>m. n + m) (snd r')"
      using r'(2) by (simp_all add: shift_def)
    have t1: "take n (take (fst r) s) = take n s" using f by (simp add: min.absorb1)
    have t2: "drop n (take (fst r) s) = take (fst r') (drop n s)"
      using f by (simp add: drop_take)
    have l: "n \<le> length (take (fst r) s)" using p(1) f by simp
    have "shape (Rep P lo hi # its) (take (fst r) s) (snd r)"
      unfolding shape.simps
    proof (intro exI conjI)
      show "n \<le> length (take (fst r) s)" by (rule l)
      show "lo \<le> n" by (rule n(1))
      show "case hi of None \<Rightarrow> True | Some h \<Rightarrow> n \<le> h" by (rule p(2))
      show "list_all P (take n (take (fst r) s))" using p(3) t1 by simp
      show "snd r = map (\<lambda>m. n + m) (snd r')" by (rule f(2))
      show "shape its (drop n (take (fst r) s)) (snd r')" using ih(2) t2 by simp
    qed
    moreover have "fst r \<le> length s" using f(1) ih(1) p(1) by simp
    ultimately show ?thesis using Rep by simp
  qed
qed

lemma findall_from_sound:
  "m \<in> set (findall_from its prev s) \<Longrightarrow> \<exists>ms. shape its m ms"
proof (induction its prev s rule: findall_from.induct)
  case (1 its prev)
  then obtain r where r: "match_here its prev [] = Some r" and m: "m = []"
    by (cases "match_here its prev []") auto
  from match_here_sound [OF r] m show ?case by auto
next
  case (2 its prev c cs)
  show ?case
  proof (cases "match_here its prev (c # cs)")
    case None
    with "2.prems" have "m \<in> set (findall_from its (Some c) cs)" by simp
    from "2.IH"(1) [OF None this] show ?thesis .
  next
    case (Some r)
    from match_here_sound [OF Some]
    have sh: "shape its (take (fst r) (c # cs)) (snd r)" by simp
    show ?thesis
    proof (cases "fst r = 0")
      case True
      with "2.prems" Some have "m = [] \<or> m \<in> set (findall_from its (Some c) cs)"
        by simp
      then show ?thesis
      proof
        assume "m = []"
        with sh True show ?thesis by auto
      next
        assume "m \<in> set (findall_from its (Some c) cs)"
        from "2.IH"(2) [OF Some True this] show ?thesis .
      qed
    next
      case False
      with "2.prems" Some have "m = take (fst r) (c # cs)
          \<or> m \<in> set (findall_from its (Some ((c # cs) ! (fst r - 1))) (drop (fst r) (c # cs)))"
        by simp
      then show ?thesis
      proof
        assume "m = take (fst r) (c # cs)"
        with sh show ?thesis by blast
      next
        assume "m \<in> set (findall_from its (Some ((c # cs) ! (fst r - 1))) (drop (fst r) (c # cs)))"
        from "2.IH"(3) [OF Some False this] show ?thesis .
      qed
    qed
  qed
qed

lemma re_findall_sound: "m \<in> set (re_findall its s) \<Longrightarrow> \<exists>ms. shape its m ms"
  unfolding re_findall_def by (rule findall_from_sound)

section \<open>Character classes under the IGNORECASE flag\<close>

lemma upper_not_lower: "is_upper c \<Longrightarrow> \<not> is_lower c"
  by (simp add: is_upper_def is_lower_def less_eq_char_def)

lemma digit_not_lower: "is_digit c \<Longrightarrow> \<not> is_lower c"
  by (simp add: is_digit_def is_lower_def less_eq_char_def)

lemma digit_not_upper: "is_digit c \<Longrightarrow> \<not> is_upper c"
  by (simp add: is_digit_def is_upper_def less_eq_char_def)

lemma inch_not_lower: "\<not> is_lower inch"
  by (simp add: inch_def is_lower_def)

lemma char_upper_id: "\<not> is_lower c \<Longrightarrow> char_upper c = c"
  by (simp add: char_upper_def)

lemma char_lower_id: "\<not> is_upper c \<Longrightarrow> char_lower c = c"
  by (simp add: char_lower_def)

lemma ci_upper_closed:
  assumes up: "\<And>x. P x \<Longrightarrow> \<not> is_lower x" and cl: "\<And>x. is_upper x \<Longrightarrow> P x"
  shows "ci P c \<Longrightarrow> P (char_upper c)"
proof -
  assume "ci P c"
  then consider "P c" | "P (char_upper c)" | "P (char_lower c)"
    by (auto simp: ci_def)
  then show ?thesis
  proof cases
    case 1
    then show ?thesis using up char_upper_id by simp
  next
    case 2
    then show ?thesis .
  next
    case 3
    show ?thesis
    proof (cases "is_upper c")
      case True
      then have "P c" by (rule cl)
      then show ?thesis using up char_upper_id by simp
    next
      case False
      with 3 have "P c" by (simp add: char_lower_id)
      then show ?thesis using up char_upper_id by simp
    qed
  qed
qed

lemma ci_is_upper: "ci is_upper c \<Longrightarrow> is_upper (char_upper c)"
proof (rule ci_upper_closed [where P = is_upper])
  show "\<And>x. is_upper x \<Longrightarrow> \<not> is_lower x" by (rule upper_not_lower)
  show "\<And>x. is_upper x \<Longrightarrow> is_upper x" .
qed

lemma upper_alnum_not_lower: "is_upper_alnum x \<Longrightarrow> \<not> is_lower x"
  by (auto simp: is_upper_alnum_def upper_not_lower digit_not_lower)

lemma ci_is_upper_alnum: "ci is_upper_alnum c \<Longrightarrow> is_upper_alnum (char_upper c)"
proof (rule ci_upper_closed [where P = is_upper_alnum])
  show "\<And>x. is_upper_alnum x \<Longrightarrow> \<not> is_lower x" by (rule upper_alnum_not_lower)
  show "\<And>x. is_upper x \<Longrightarrow> is_upper_alnum x" by (simp add: is_upper_alnum_def)
qed

lemma ci_is_digit: "ci is_digit c \<Longrightarrow> is_upper_alnum (char_upper c)"
proof -
  assume "ci is_digit c"
  then have "ci is_upper_alnum c" by (auto simp: ci_def is_upper_alnum_def)
  then show ?thesis by (rule ci_is_upper_alnum)
qed

lemma first_class_not_lower: "first_class x \<Longrightarrow> \<not> is_lower x"
  by (auto simp: first_class_def upper_alnum_not_lower inch_not_lower)

lemma ci_first_class: "ci first_class c \<Longrightarrow> first_class (char_upper c)"
proof (rule ci_upper_closed [where P = first_class])
  show "\<And>x. first_class x \<Longrightarrow> \<not> is_lower x" by (rule first_class_not_lower)
  show "\<And>x. is_upper x \<Longrightarrow> first_class x" by (simp add: first_class_def is_upper_alnum_def)
qed

lemma is_space_code:
  "is_space c \<Longrightarrow> (of_char c :: nat) \<le> 32"
  by (auto simp: is_space_def less_eq_char_def)

lemma first_class_no_space: "first_class (char_upper c) \<Longrightarrow> \<not> is_space c"
proof (cases "is_lower c")
  case True
  then have "(of_char c :: nat) \<ge> 97" by (simp add: is_lower_def less_eq_char_def)
  then show ?thesis using is_space_code [of c] by auto
next
  case False
  assume f: "first_class (char_upper c)"
  from False have "char_upper c = c" by (rule char_upper_id)
  with f have "first_class c" by simp
  then have "(of_char c :: nat) \<ge> 34"
    by (auto simp: first_class_def is_upper_alnum_def is_upper_def is_digit_def
        less_eq_char_def inch_def)
  then show ?thesis using is_space_code [of c] by auto
qed

lemma first_class_no_dash: "first_class c \<Longrightarrow> c \<noteq> dash"
  by (auto simp: first_class_def is_upper_alnum_def is_upper_def is_digit_def dash_def inch_def)

lemma char_upper_dash: "char_upper dash = dash"
  by (simp add: char_upper_def dash_def is_lower_def)

lemma strip_id:
  "s \<noteq> [] \<Longrightarrow> \<not> is_space (hd s) \<Longrightarrow> \<not> is_space (last s) \<Longrightarrow> strip s = s"
proof -
  assume s: "s \<noteq> []" and h: "\<not> is_space (hd s)" and l: "\<not> is_space (last s)"
  from s h have a: "dropWhile is_space s = s" by (cases s) auto
  from s l have "\<not> is_space (hd (rev s))" by (simp add: hd_rev)
  with s have "dropWhile is_space (rev s) = rev s" by (cases "rev s") auto
  with a show ?thesis by (simp add: strip_def)
qed

lemma lower_to_upper: "is_lower c \<Longrightarrow> is_upper (char_upper c)"
proof -
  assume l: "is_lower c"
  then have r: "97 \<le> (of_char c :: nat)" "(of_char c :: nat) \<le> 122"
    by (simp_all add: is_lower_def less_eq_char_def)
  then have "(of_char c - 32 :: nat) mod 256 = of_char c - 32" by simp
  with r l show ?thesis
    by (simp add: is_upper_def char_upper_def less_eq_char_def; arith)
qed

lemma upper_to_lower: "is_upper c \<Longrightarrow> is_lower (char_lower c)"
proof -
  assume u: "is_upper c"
  then have r: "65 \<le> (of_char c :: nat)" "(of_char c :: nat) \<le> 90"
    by (simp_all add: is_upper_def less_eq_char_def)
  then have "(of_char c + 32 :: nat) mod 256 = of_char c + 32" by simp
  with r u show ?thesis
    by (simp add: is_lower_def char_lower_def less_eq_char_def; arith)
qed

lemma ci_literal:
  assumes "\<not> is_upper d" "\<not> is_lower d"
  shows "ci (\<lambda>x. x = d) c \<Longrightarrow> c = d"
proof -
  assume "ci (\<lambda>x. x = d) c"
  then consider "c = d" | "char_upper c = d" | "char_lower c = d" by (auto simp: ci_def)
  then show ?thesis
  proof cases
    case 1 then show ?thesis .
  next
    case 2
    show ?thesis
    proof (cases "is_lower c")
      case True
      then have "is_upper (char_upper c)" by (rule lower_to_upper)
      with 2 assms show ?thesis by simp
    next
      case False
      with 2 show ?thesis by (simp add: char_upper_id)
    qed
  next
    case 3
    show ?thesis
    proof (cases "is_upper c")
      case True
      then have "is_lower (char_lower c)" by (rule upper_to_lower)
      with 3 assms show ?thesis by simp
    next
      case False
      with 3 show ?thesis by (simp add: char_lower_id)
    qed
  qed
qed

lemma ci_dash: "ci (\<lambda>x. x = dash) c \<Longrightarrow> c = dash"
  by (rule ci_literal) (simp_all add: dash_def is_upper_def is_lower_def)

lemma ci_inch: "ci (\<lambda>x. x = inch) c \<Longrightarrow> c = inch"
  by (rule ci_literal) (simp_all add: inch_def is_upper_def is_lower_def)

lemma ci_mono: "(\<And>x. P x \<Longrightarrow> Q x) \<Longrightarrow> ci P c \<Longrightarrow> ci Q c"
  by (auto simp: ci_def)

section \<open>The form of a match\<close>

lemma shape_RepE:
  assumes "shape (Rep P lo hi # its) w ms"
  obtains u v ms' where "w = u @ v" "lo \<le> length u"
    "case hi of None \<Rightarrow> True | Some h \<Rightarrow> length u \<le> h" "list_all P u" "shape its v ms'"
proof -
  from assms obtain n ms' where n: "n \<le> length w" "lo \<le> n"
    "case hi of None \<Rightarrow> True | Some h \<Rightarrow> n \<le> h" "list_all P (take n w)"
    "shape its (drop n w) ms'"
    by auto
  have a: "w = take n w @ drop n w" by simp
  have l: "length (take n w) = n" using n(1) by simp
  show ?thesis
  proof (rule that [of "take n w" "drop n w" ms'])
    show "w = take n w @ drop n w" by (rule a)
    show "lo \<le> length (take n w)" using n(2) l by simp
    show "case hi of None \<Rightarrow> True | Some h \<Rightarrow> length (take n w) \<le> h"
      unfolding l by (rule n(3))
    show "list_all P (take n w)" by (rule n(4))
    show "shape its (drop n w) ms'" by (rule n(5))
  qed
qed

lemma shape_ClsE:
  assumes "shape (Cls P # its) w ms"
  obtains c v ms' where "w = c # v" "P c" "shape its v ms'"
  using assms by auto

lemma shape_BndE: "shape (Bnd # its) w ms \<Longrightarrow> shape its w ms"
  by simp

lemma shape_tail:
  assumes "shape (ignorecase tail_items) w ms"
  shows "\<exists>B C D. w = dash # B @ dash # C @ dash # D
        \<and> component_ok (ci is_upper) 3 B
        \<and> component_ok (ci is_upper_alnum) 3 C \<and> component_ok (ci is_upper_alnum) 4 D"
proof -
  from assms have s0: "shape (Cls (ci (\<lambda>x. x = dash)) # Rep (ci is_upper) 1 (Some 3)
       # Cls (ci (\<lambda>x. x = dash)) # Rep (ci is_upper_alnum) 1 (Some 3)
       # Cls (ci (\<lambda>x. x = dash)) # Rep (ci is_upper_alnum) 1 (Some 4) # [Bnd]) w ms"
    by (simp add: tail_items_def ignorecase_def lit_def)
  from s0 obtain c1 w1 m1 where 1: "w = c1 # w1" "ci (\<lambda>x. x = dash) c1"
    and s1: "shape (Rep (ci is_upper) 1 (Some 3)
       # Cls (ci (\<lambda>x. x = dash)) # Rep (ci is_upper_alnum) 1 (Some 3)
       # Cls (ci (\<lambda>x. x = dash)) # Rep (ci is_upper_alnum) 1 (Some 4) # [Bnd]) w1 m1"
    by (rule shape_ClsE)
  from s1 obtain B w2 m2 where 2: "w1 = B @ w2" "1 \<le> length B" "length B \<le> 3"
    "list_all (ci is_upper) B"
    and s2: "shape (Cls (ci (\<lambda>x. x = dash)) # Rep (ci is_upper_alnum) 1 (Some 3)
       # Cls (ci (\<lambda>x. x = dash)) # Rep (ci is_upper_alnum) 1 (Some 4) # [Bnd]) w2 m2"
    by (rule shape_RepE) simp
  from s2 obtain c3 w3 m3 where 3: "w2 = c3 # w3" "ci (\<lambda>x. x = dash) c3"
    and s3: "shape (Rep (ci is_upper_alnum) 1 (Some 3)
       # Cls (ci (\<lambda>x. x = dash)) # Rep (ci is_upper_alnum) 1 (Some 4) # [Bnd]) w3 m3"
    by (rule shape_ClsE)
  from s3 obtain C w4 m4 where 4: "w3 = C @ w4" "1 \<le> length C" "length C \<le> 3"
    "list_all (ci is_upper_alnum) C"
    and s4: "shape (Cls (ci (\<lambda>x. x = dash)) # Rep (ci is_upper_alnum) 1 (Some 4) # [Bnd]) w4 m4"
    by (rule shape_RepE) simp
  from s4 obtain c5 w5 m5 where 5: "w4 = c5 # w5" "ci (\<lambda>x. x = dash) c5"
    and s5: "shape (Rep (ci is_upper_alnum) 1 (Some 4) # [Bnd]) w5 m5"
    by (rule shape_ClsE)
  from s5 obtain D w6 m6 where 6: "w5 = D @ w6" "1 \<le> length D" "length D \<le> 4"
    "list_all (ci is_upper_alnum) D"
    and s6: "shape [Bnd] w6 m6"
    by (rule shape_RepE) simp
  from s6 have "w6 = []" by simp
  with 1 2 3 4 5 6 have "w = dash # B @ dash # C @ dash # D"
    by (simp add: ci_dash)
  moreover have "component_ok (ci is_upper) 3 B" "component_ok (ci is_upper_alnum) 3 C"
    "component_ok (ci is_upper_alnum) 4 D"
    using 2 4 6 by (auto simp: component_ok_def)
  ultimately show ?thesis by blast
qed

lemma digit_first_class: "ci is_digit c \<Longrightarrow> ci first_class c"
  by (rule ci_mono [where P = is_digit]) (simp_all add: first_class_def is_upper_alnum_def)

lemma upper_alnum_first_class: "ci (\<lambda>c. is_upper_alnum c \<or> c = inch) c \<Longrightarrow> ci first_class c"
  by (rule ci_mono [where P = "\<lambda>c. is_upper_alnum c \<or> c = inch"]) (simp_all add: first_class_def)

lemma inch_first_class: "ci first_class inch"
  by (simp add: ci_def first_class_def)

lemma raw_shapeI:
  assumes "component_ok (ci first_class) 4 A"
    and "shape (ignorecase tail_items) w ms"
  shows "raw_shape (A @ w)"
proof -
  from shape_tail [OF assms(2)] obtain B C D where
    "w = dash # B @ dash # C @ dash # D" "component_ok (ci is_upper) 3 B"
    "component_ok (ci is_upper_alnum) 3 C" "component_ok (ci is_upper_alnum) 4 D"
    by blast
  with assms(1) show ?thesis unfolding raw_shape_def by blast
qed

lemma shape_pattern1: "shape (ignorecase pattern1) m ms \<Longrightarrow> raw_shape m"
proof -
  assume "shape (ignorecase pattern1) m ms"
  then have s0: "shape (Rep (ci is_digit) 1 (Some 2) # Cls (ci (\<lambda>x. x = inch))
      # ignorecase tail_items) m ms"
    by (simp add: pattern1_def ignorecase_def lit_def)
  from s0 obtain A w1 m1 where 1: "m = A @ w1" "1 \<le> length A" "length A \<le> 2"
    "list_all (ci is_digit) A"
    and s1: "shape (Cls (ci (\<lambda>x. x = inch)) # ignorecase tail_items) w1 m1"
    by (rule shape_RepE) simp
  from s1 obtain c w2 m2 where 2: "w1 = c # w2" "ci (\<lambda>x. x = inch) c"
    and s2: "shape (ignorecase tail_items) w2 m2"
    by (rule shape_ClsE)
  have c: "c = inch" using 2(2) by (rule ci_inch)
  have "list_all (ci first_class) A"
    using 1(4) by (auto simp: list_all_iff digit_first_class)
  then have "component_ok (ci first_class) 4 (A @ [inch])"
    using 1(2,3) by (simp add: component_ok_def inch_first_class)
  from raw_shapeI [OF this s2] show ?thesis using 1(1) 2(1) c by simp
qed

lemma shape_pattern2: "shape (ignorecase pattern2) m ms \<Longrightarrow> raw_shape m"
proof -
  assume "shape (ignorecase pattern2) m ms"
  then have s0: "shape (Rep (ci is_digit) 1 (Some 2) # ignorecase tail_items) m ms"
    by (simp add: pattern2_def ignorecase_def)
  from s0 obtain A w1 m1 where 1: "m = A @ w1" "1 \<le> length A" "length A \<le> 2"
    "list_all (ci is_digit) A"
    and s1: "shape (ignorecase tail_items) w1 m1"
    by (rule shape_RepE) simp
  have "list_all (ci first_class) A"
    using 1(4) by (auto simp: list_all_iff digit_first_class)
  then have "component_ok (ci first_class) 4 A"
    using 1(2,3) by (auto simp: component_ok_def)
  from raw_shapeI [OF this s1] show ?thesis using 1(1) by simp
qed

lemma shape_pattern3: "shape (ignorecase pattern3) m ms \<Longrightarrow> raw_shape m"
proof -
  assume "shape (ignorecase pattern3) m ms"
  then have s0: "shape (Rep (ci (\<lambda>c. is_upper_alnum c \<or> c = inch)) 1 (Some 4)
      # ignorecase tail_items) m ms"
    by (simp add: pattern3_def ignorecase_def)
  from s0 obtain A w1 m1 where 1: "m = A @ w1" "1 \<le> length A" "length A \<le> 4"
    "list_all (ci (\<lambda>c. is_upper_alnum c \<or> c = inch)) A"
    and s1: "shape (ignorecase tail_items) w1 m1"
    by (rule shape_RepE) simp
  have "list_all (ci first_class) A"
    using 1(4) by (auto simp: list_all_iff upper_alnum_first_class)
  then have "component_ok (ci first_class) 4 A"
    using 1(2,3) by (auto simp: component_ok_def)
  from raw_shapeI [OF this s1] show ?thesis using 1(1) by simp
qed

lemma raw_matches_shape: "(ln, line, m) \<in> set (raw_matches t) \<Longrightarrow> raw_shape m"
proof -
  assume "(ln, line, m) \<in> set (raw_matches t)"
  then obtain p where p: "p \<in> set patterns" and m: "m \<in> set (re_findall (ignorecase p) line)"
    by (auto simp: raw_matches_def line_matches_def)
  from re_findall_sound [OF m] obtain ms where "shape (ignorecase p) m ms" by blast
  with p show ?thesis
    by (auto simp: patterns_def shape_pattern1 shape_pattern2 shape_pattern3)
qed

section \<open>The form of an extracted identifier\<close>

lemma component_upper:
  assumes "\<And>c. ci P c \<Longrightarrow> Q (char_upper c)" "component_ok (ci P) n w"
  shows "component_ok Q n (upper w)"
  using assms by (auto simp: component_ok_def upper_def list_all_iff)

lemma upper_first_class: "is_upper c \<Longrightarrow> first_class c"
  by (simp add: first_class_def is_upper_alnum_def)

lemma upper_alnum_first: "is_upper_alnum c \<Longrightarrow> first_class c"
  by (simp add: first_class_def)

lemma component_no_dash:
  assumes "\<And>c. P c \<Longrightarrow> first_class c" "component_ok P n w"
  shows "dash \<notin> set w"
proof
  assume "dash \<in> set w"
  with assms(2) have "P dash" by (auto simp: component_ok_def list_all_iff)
  then have "first_class dash" by (rule assms(1))
  then show False using first_class_no_dash by blast
qed

lemma py_split_four:
  assumes "dash \<notin> set A" "dash \<notin> set B" "dash \<notin> set C" "dash \<notin> set D"
  shows "py_split dash (A @ dash # B @ dash # C @ dash # D) = [A, B, C, D]"
  using assms by (simp add: py_split_append_sep py_split_no_sep_single)

lemma raw_shape_strip: "raw_shape m \<Longrightarrow> strip m = m"
proof -
  assume "raw_shape m"
  then obtain A B C D where m: "m = A @ dash # B @ dash # C @ dash # D"
    and A: "component_ok (ci first_class) 4 A" and D: "component_ok (ci is_upper_alnum) 4 D"
    unfolding raw_shape_def by blast
  from A have "A \<noteq> []" "ci first_class (hd A)"
    by (auto simp: component_ok_def list_all_iff)
  then have h: "\<not> is_space (hd m)"
    using m first_class_no_space [OF ci_first_class] by simp
  from D have "D \<noteq> []" "ci is_upper_alnum (last D)"
    by (auto simp: component_ok_def list_all_iff)
  then have "first_class (char_upper (last D))"
    using ci_is_upper_alnum upper_alnum_first by blast
  then have "\<not> is_space (last D)" by (rule first_class_no_space)
  then have l: "\<not> is_space (last m)" using m \<open>D \<noteq> []\<close> by simp
  from m have "m \<noteq> []" by simp
  from strip_id [OF this h l] show ?thesis .
qed

lemma raw_shape_key:
  assumes "raw_shape m"
  shows "candidate_shape (normalize_piping_line (upper (strip m)))"
proof -
  from assms obtain A B C D where m: "m = A @ dash # B @ dash # C @ dash # D"
    and A: "component_ok (ci first_class) 4 A" and B: "component_ok (ci is_upper) 3 B"
    and C: "component_ok (ci is_upper_alnum) 3 C" and D: "component_ok (ci is_upper_alnum) 4 D"
    unfolding raw_shape_def by blast
  let ?A = "upper A" and ?B = "upper B" and ?C = "upper C" and ?D = "upper D"
  have A': "component_ok first_class 4 ?A"
    using ci_first_class A by (rule component_upper)
  have B': "component_ok is_upper 3 ?B"
    using ci_is_upper B by (rule component_upper)
  have C': "component_ok is_upper_alnum 3 ?C"
    using ci_is_upper_alnum C by (rule component_upper)
  have D': "component_ok is_upper_alnum 4 ?D"
    using ci_is_upper_alnum D by (rule component_upper)
  have u: "upper (strip m) = ?A @ dash # ?B @ dash # ?C @ dash # ?D"
    using raw_shape_strip [OF assms] m by (simp add: upper_def char_upper_dash)
  have nd: "dash \<notin> set ?A" "dash \<notin> set ?B" "dash \<notin> set ?C" "dash \<notin> set ?D"
    using component_no_dash [OF _ A'] component_no_dash [OF upper_first_class B']
      component_no_dash [OF upper_alnum_first C'] component_no_dash [OF upper_alnum_first D']
    by simp_all
  have sp: "py_split dash (upper (strip m)) = [?A, ?B, ?C, ?D]"
    unfolding u using nd by (rule py_split_four)
  have A'': "component_ok first_class 5 (?A @ [inch])"
    using A' by (simp add: component_ok_def first_class_def)
  have A5: "component_ok first_class 5 ?A"
    using A' by (simp add: component_ok_def)
  show ?thesis
    using A'' A5 B' C' D'
    by (simp add: candidate_shape_def split_normalize sp)
qed

lemma candidates_shape: "k \<in> fst ` set (candidates t lay) \<Longrightarrow> candidate_shape k"
proof -
  assume "k \<in> fst ` set (candidates t lay)"
  then obtain ln line m where r: "(ln, line, m) \<in> set (raw_matches t)"
    and k: "k = normalize_piping_line (upper (strip m))"
    by (auto simp: candidates_def candidate_def)
  from raw_matches_shape [OF r] have "raw_shape m" .
  from raw_shape_key [OF this] k show ?thesis by simp
qed

lemma extract_shape:
  "k \<in> fst ` set (extract_piping_line_numbers t lay) \<Longrightarrow> candidate_shape k"
  using candidates_shape [of k t lay] by (simp add: extract_keys)

lemma digit_second_split: "py_split dash digit_second = [''6'' @ [inch], ''12'', ''101'', ''CS'']"
  by (simp add: digit_second_def dash_def inch_def)

lemma digit_second_not_shape: "\<not> candidate_shape digit_second"
  by (simp add: candidate_shape_def digit_second_split component_ok_def is_upper_def)

lemma digit_second_valid: "validate_piping_line digit_second"
  by code_simp

lemma two_lines_extract:
  "extract_piping_line_numbers two_lines [] =
     [(''6'' @ [inch] @ ''-P-101-CS'', 1, ''6-P-101-CS'', None)]"
  by code_simp

text \<open>
  Claim C10. Every match of the three patterns has four components, the second of one to
  three letters, the third of one to three and the fourth of one to four letters or
  digits, and every identifier stored by the extraction, and so every identifier of the
  result, has this form in uppercase. The string \<^verbatim>\<open>6"-12-101-CS\<close>, whose second
  component is made of digits, passes \<^verbatim>\<open>validate_piping_line\<close> but is never extracted
  and never in the result.
\<close>

theorem second_component_letters:
  "(\<forall>r \<in> set (raw_matches t). raw_shape (snd (snd r)))
   \<and> (\<forall>k \<in> fst ` set (extract_piping_line_numbers t lay). candidate_shape k)
   \<and> (\<forall>e \<in> set (piping_lines (process_text t lay pdf)). candidate_shape (piping_line_number e))
   \<and> validate_piping_line digit_second
   \<and> \<not> candidate_shape digit_second
   \<and> digit_second \<notin> fst ` set (extract_piping_line_numbers t lay)
   \<and> digit_second \<notin> set (map piping_line_number (piping_lines (process_text t lay pdf)))"
proof (intro conjI ballI)
  fix r
  assume "r \<in> set (raw_matches t)"
  then show "raw_shape (snd (snd r))"
    using raw_matches_shape [of "fst r" "fst (snd r)" "snd (snd r)" t] by simp
next
  fix k
  assume "k \<in> fst ` set (extract_piping_line_numbers t lay)"
  then show "candidate_shape k" by (rule extract_shape)
next
  fix e
  assume "e \<in> set (piping_lines (process_text t lay pdf))"
  then have "piping_line_number e \<in> set (map piping_line_number (piping_lines (process_text t lay pdf)))"
    by simp
  then have "piping_line_number e \<in> fst ` set (candidates t lay)"
    unfolding process_text_key_set by simp
  then show "candidate_shape (piping_line_number e)" by (rule candidates_shape)
next
  show "validate_piping_line digit_second" by (rule digit_second_valid)
  show "\<not> candidate_shape digit_second" by (rule digit_second_not_shape)
  show "digit_second \<notin> fst ` set (extract_piping_line_numbers t lay)"
    using extract_shape [of digit_second t lay] digit_second_not_shape by blast
  show "digit_second \<notin> set (map piping_line_number (piping_lines (process_text t lay pdf)))"
    unfolding process_text_key_set
    using candidates_shape [of digit_second t lay] digit_second_not_shape by blast
qed

theorem second_component_letters_witness:
  "''6'' @ [inch] @ ''-P-101-CS'' \<in> fst ` set (extract_piping_line_numbers two_lines [])
   \<and> candidate_shape (''6'' @ [inch] @ ''-P-101-CS'')
   \<and> py_split dash (''6'' @ [inch] @ ''-P-101-CS'') = [''6'' @ [inch], ''P'', ''101'', ''CS'']"
proof -
  have k: "''6'' @ [inch] @ ''-P-101-CS'' \<in> fst ` set (extract_piping_line_numbers two_lines [])"
    by (simp add: two_lines_extract)
  have s: "py_split dash (''6'' @ [inch] @ ''-P-101-CS'') = [''6'' @ [inch], ''P'', ''101'', ''CS'']"
    by (simp add: dash_def inch_def)
  from second_component_letters [of two_lines "[]"] k s show ?thesis
    by blast
qed

section \<open>Patterns in sequence and the search\<close>















section \<open>The drawing identifier that is returned\<close>






















end
